theory Spec2Isabelle
  imports Main "HOL-Library.Multiset"
begin

section \<open>Values, errors and the design tree\<close>

text \<open>
  The fields of the design tree are filled from \<open>Token.value\<close>, which the scanner sets to
  a Python \<open>str\<close> or, for a number, to an \<open>int\<close>. A field therefore holds a value of
  either kind.
\<close>

datatype val = Str string | Num int

text \<open>
  The exceptions the program can raise. \<open>SyntaxError_expected kind column line\<close> stands
  for the message \<open>Expected {kind} on column {column} of line {line}\<close>,
  \<open>SyntaxError_eof\<close> for \<open>Unexpected end of file\<close>, and
  \<open>RuntimeError_unexpected value column line\<close> for
  \<open>Unexpected token {value!r} on column {column} of line {line}\<close>.
  \<open>AttributeError\<close> is what reading \<open>.line\<close> or \<open>.value\<close> of \<open>None\<close> raises,
  \<open>TypeError\<close> what indexing or adding to \<open>None\<close> raises, \<open>KeyError\<close> what a
  dictionary raises for an absent key.
\<close>

datatype error =
    SyntaxError_expected string int int
  | SyntaxError_eof
  | RuntimeError_unexpected string int int
  | AttributeError
  | TypeError
  | KeyError val

record argument =
  param :: val
  arg :: val
  msb :: val
  lsb :: val

record net =
  net_type :: string
  net_name :: val
  net_msb :: val
  net_lsb :: val

record inst =
  inst_type :: val
  inst_name :: val
  args :: "argument list"

text \<open>
  The attribute \<open>cntr\<close> of a \<open>Module\<close> is its only mutable part. It is kept
  outside the record, in a store of type \<open>cntrs\<close> below.
\<close>

record module =
  name :: val
  params :: "val list"
  nets :: "net list"
  instances :: "inst list"

record design =
  modules :: "val \<rightharpoonup> module"

text \<open>\<open>Design.__init__\<close>: a dictionary comprehension, so a later module replaces an
  earlier one of the same name.\<close>

definition Design :: "module list \<Rightarrow> design" where
  "Design ms = \<lparr>modules = fold (\<lambda>m d. d(name m \<mapsto> m)) ms Map.empty\<rparr>"

section \<open>Counting instances\<close>

text \<open>
  A \<open>Counter\<close> with positive counts is a multiset; \<open>+=\<close> on counters adds the counts.

  The store \<open>cntrs\<close> gives, for every module object of a design, the value of its
  attribute \<open>cntr\<close>: \<open>None\<close> for Python's \<open>None\<close>. A module object is identified by
  its name, which is the key under which \<open>Design.__init__\<close> holds it; every object
  that \<open>count_instances\<close> reaches is a value of that dictionary. Each module creates
  its own \<open>Counter\<close> and only the call that created it writes to it, so the store of
  values agrees with the Python objects, also when the counter a call returns is the
  one being added to (in place, \<open>c += c\<close> doubles every count).

  The first argument bounds the depth of the recursion: \<open>None\<close> is returned when the
  recursion would go deeper.
\<close>

type_synonym counter = "val multiset"
type_synonym cntrs = "val \<rightharpoonup> counter"

fun Module_count_instances ::
    "nat \<Rightarrow> (val \<rightharpoonup> module) \<Rightarrow> module \<Rightarrow> cntrs \<Rightarrow> (error + counter \<times> cntrs) option"
  and count_loop ::
    "nat \<Rightarrow> (val \<rightharpoonup> module) \<Rightarrow> module \<Rightarrow> inst list \<Rightarrow> cntrs \<Rightarrow> (error + cntrs) option"
where
  "Module_count_instances 0 ms self st = None"
| "Module_count_instances (Suc n) ms self st =
     (case st (name self) of
        Some c \<Rightarrow> Some (Inr (c, st))
      | None \<Rightarrow>
         (case count_loop n ms self (instances self) (st(name self \<mapsto> {#})) of
            None \<Rightarrow> None
          | Some (Inl e) \<Rightarrow> Some (Inl e)
          | Some (Inr st') \<Rightarrow>
             (case st' (name self) of
                None \<Rightarrow> Some (Inl TypeError)
              | Some c \<Rightarrow> Some (Inr (c, st')))))"
| "count_loop n ms self [] st = Some (Inr st)"
| "count_loop n ms self (i # rest) st =
     (case st (name self) of
        None \<Rightarrow> Some (Inl TypeError)
      | Some c \<Rightarrow>
         (let st1 = st(name self \<mapsto> add_mset (inst_type i) c) in
          case ms (inst_type i) of
            None \<Rightarrow> count_loop n ms self rest st1
          | Some m \<Rightarrow>
             (case Module_count_instances n ms m st1 of
                None \<Rightarrow> None
              | Some (Inl e) \<Rightarrow> Some (Inl e)
              | Some (Inr (r, st2)) \<Rightarrow>
                 (case st2 (name self) of
                    None \<Rightarrow> Some (Inl TypeError)
                  | Some c2 \<Rightarrow> count_loop n ms self rest (st2(name self \<mapsto> c2 + r))))))"

text \<open>\<open>Design.count_instances\<close>: \<open>self.modules[module]\<close> raises \<open>KeyError\<close> for an
  absent name.\<close>

definition Design_count_instances ::
    "nat \<Rightarrow> design \<Rightarrow> val \<Rightarrow> cntrs \<Rightarrow> (error + counter \<times> cntrs) option" where
  "Design_count_instances fuel d module st =
     (case modules d module of
        None \<Rightarrow> Some (Inl (KeyError module))
      | Some m \<Rightarrow> Module_count_instances fuel (modules d) m st)"

subsection \<open>Acyclic hierarchies and the flattened count\<close>

text \<open>
  \<open>acyclic_below k ms m\<close>: every chain of instantiations that starts at module \<open>m\<close>
  and stays within the modules of \<open>ms\<close> has fewer than \<open>k\<close> modules. A module that
  instantiates itself, directly or through others, satisfies it for no \<open>k\<close>.
\<close>

fun acyclic_below :: "nat \<Rightarrow> (val \<rightharpoonup> module) \<Rightarrow> module \<Rightarrow> bool" where
  "acyclic_below 0 ms m = False"
| "acyclic_below (Suc k) ms m =
     list_all (\<lambda>i. case ms (inst_type i) of None \<Rightarrow> True | Some m' \<Rightarrow> acyclic_below k ms m')
       (instances m)"

text \<open>
  The count the specification describes: one for the type of each direct instance, plus
  the flattened count of each instance whose type is a module of the design.
\<close>

fun flattened :: "nat \<Rightarrow> (val \<rightharpoonup> module) \<Rightarrow> module \<Rightarrow> counter" where
  "flattened 0 ms m = {#}"
| "flattened (Suc k) ms m =
     (\<Sum>i\<leftarrow>instances m. {#inst_type i#} +
        (case ms (inst_type i) of None \<Rightarrow> {#} | Some m' \<Rightarrow> flattened k ms m'))"

text \<open>
  The instantiation graph of a design: \<open>m\<close> instantiates \<open>m'\<close> when an instance of
  \<open>m\<close> has a type that names \<open>m'\<close>. The hierarchy below \<open>m\<close> is acyclic when no module
  that can be reached from \<open>m\<close> instantiates itself, directly or through other modules.
\<close>

definition instantiates :: "(val \<rightharpoonup> module) \<Rightarrow> (module \<times> module) set" where
  "instantiates ms = {(m, m'). \<exists>i \<in> set (instances m). ms (inst_type i) = Some m'}"

definition acyclic_from :: "(val \<rightharpoonup> module) \<Rightarrow> module \<Rightarrow> bool" where
  "acyclic_from ms m =
     (\<forall>m'. (m, m') \<in> (instantiates ms)\<^sup>* \<longrightarrow> (m', m') \<notin> (instantiates ms)\<^sup>+)"

text \<open>The names of the modules whose \<open>cntr\<close> is still \<open>None\<close>.\<close>

definition uncached :: "(val \<rightharpoonup> module) \<Rightarrow> cntrs \<Rightarrow> val set" where
  "uncached ms st = {n \<in> name ` ran ms. st n = None}"

text \<open>Every module is held under its own name, as \<open>Design.__init__\<close> stores it.\<close>

definition keyed :: "(val \<rightharpoonup> module) \<Rightarrow> bool" where
  "keyed ms = (\<forall>n m. ms n = Some m \<longrightarrow> name m = n)"

text \<open>Every counter of a module of depth below \<open>k\<close> that is present is the flattened
  count of that module.\<close>

definition consistent :: "nat \<Rightarrow> (val \<rightharpoonup> module) \<Rightarrow> cntrs \<Rightarrow> bool" where
  "consistent k ms st =
     (\<forall>n m c. ms n = Some m \<longrightarrow> acyclic_below k ms m \<longrightarrow> st n = Some c \<longrightarrow> c = flattened k ms m)"

definition shallow :: "nat \<Rightarrow> (val \<rightharpoonup> module) \<Rightarrow> val \<Rightarrow> bool" where
  "shallow k ms n = (\<exists>m. ms n = Some m \<and> acyclic_below k ms m)"

text \<open>
  The states of the counters that can arise: none is set when the parser has built the
  design, and every completed call of \<open>count_instances\<close> leads from one state to the
  next.
\<close>

inductive counters_reachable :: "design \<Rightarrow> cntrs \<Rightarrow> bool" for d where
  fresh: "counters_reachable d Map.empty"
| counted: "counters_reachable d st \<Longrightarrow>
     Design_count_instances fuel d n st = Some (Inr (c, st')) \<Longrightarrow> counters_reachable d st'"

text \<open>Every counter that is set for a module with an acyclic hierarchy below it is the
  flattened count of that module.\<close>

definition all_consistent :: "(val \<rightharpoonup> module) \<Rightarrow> cntrs \<Rightarrow> bool" where
  "all_consistent ms st = (\<forall>k. consistent k ms st)"


subsection \<open>Example designs\<close>

text \<open>The two modules of the specification's scenario: \<open>cellB\<close> has no instance,
  \<open>TopCell\<close> instantiates the primitive \<open>AND2\<close> and \<open>cellB\<close>.\<close>

definition cellB :: module where
  "cellB = \<lparr>name = Str ''cellB'', params = [Str ''a''],
     nets = [\<lparr>net_type = ''wire'', net_name = Str ''a'', net_msb = Num 0, net_lsb = Num 0\<rparr>],
     instances = []\<rparr>"

definition TopCell :: module where
  "TopCell = \<lparr>name = Str ''TopCell'', params = [Str ''x''],
     nets = [\<lparr>net_type = ''wire'', net_name = Str ''x'', net_msb = Num 0, net_lsb = Num 0\<rparr>],
     instances =
       [\<lparr>inst_type = Str ''AND2'', inst_name = Str ''u1'',
          args = [\<lparr>param = Str ''A'', arg = Str ''x'', msb = Num 0, lsb = Num 0\<rparr>,
                  \<lparr>param = Str ''B'', arg = Str ''x'', msb = Num 0, lsb = Num 0\<rparr>]\<rparr>,
        \<lparr>inst_type = Str ''cellB'', inst_name = Str ''u2'',
          args = [\<lparr>param = Str ''a'', arg = Str ''x'', msb = Num 0, lsb = Num 0\<rparr>]\<rparr>]\<rparr>"

text \<open>\<open>module A(x); A u(.x(x)); endmodule\<close>: a module that instantiates itself.\<close>

definition selfcell :: module where
  "selfcell = \<lparr>name = Str ''A'', params = [Str ''x''], nets = [],
     instances =
       [\<lparr>inst_type = Str ''A'', inst_name = Str ''u'',
          args = [\<lparr>param = Str ''x'', arg = Str ''x'', msb = Num 0, lsb = Num 0\<rparr>]\<rparr>]\<rparr>"

text \<open>Two modules that instantiate each other.\<close>

definition loop_a :: module where
  "loop_a = \<lparr>name = Str ''A'', params = [Str ''x''], nets = [],
     instances =
       [\<lparr>inst_type = Str ''B'', inst_name = Str ''u'',
          args = [\<lparr>param = Str ''y'', arg = Str ''x'', msb = Num 0, lsb = Num 0\<rparr>]\<rparr>]\<rparr>"

definition loop_b :: module where
  "loop_b = \<lparr>name = Str ''B'', params = [Str ''y''], nets = [],
     instances =
       [\<lparr>inst_type = Str ''A'', inst_name = Str ''v'',
          args = [\<lparr>param = Str ''x'', arg = Str ''y'', msb = Num 0, lsb = Num 0\<rparr>]\<rparr>]\<rparr>"

section \<open>The scanner\<close>

text \<open>
  A text is a list of characters, one per code point; the model covers the code points
  below 256. \<open>is_digit\<close> is the class \<open>\d\<close> and \<open>is_word\<close> the class \<open>\w\<close> of
  Python's \<open>re\<close> for \<open>str\<close> patterns on that range: \<open>\w\<close> holds, besides the ASCII
  letters, digits and the underscore, the letters and numeric characters of Latin-1.
\<close>

definition newline :: char where
  "newline = CHR 0x0A"

definition is_digit :: "char \<Rightarrow> bool" where
  "is_digit c = (c \<in> set ''0123456789'')"

definition is_word :: "char \<Rightarrow> bool" where
  "is_word c =
     (c \<in> set ''0123456789abcdefghijklmnopqrstuvwxyzABCDEFGHIJKLMNOPQRSTUVWXYZ_'' \<or>
      (let n = (of_char c :: nat) in
         n = 170 \<or> n = 178 \<or> n = 179 \<or> n = 181 \<or> n = 185 \<or> n = 186 \<or>
         (188 \<le> n \<and> n \<le> 190) \<or> (192 \<le> n \<and> n \<le> 214) \<or>
         (216 \<le> n \<and> n \<le> 246) \<or> 248 \<le> n))"

definition is_punctuator :: "char \<Rightarrow> bool" where
  "is_punctuator c = (c \<in> set ''()[]:.,;'')"

definition is_whitespace :: "char \<Rightarrow> bool" where
  "is_whitespace c = (c = CHR '' '' \<or> c = CHR 0x09)"

text \<open>
  \<open>//.*\n\<close>: two slashes, then the characters up to the next newline, then that
  newline. The dot matches every character but the newline, so without a newline after
  the slashes the pattern does not match. The result is the matched text and the rest.
\<close>

definition match_comment :: "string \<Rightarrow> (string \<times> string) option" where
  "match_comment s =
     (case s of
        c1 # c2 # r \<Rightarrow>
          if c1 = CHR ''/'' \<and> c2 = CHR ''/'' \<and> newline \<in> set r
          then Some (c1 # c2 # takeWhile (\<lambda>x. x \<noteq> newline) r @ [newline],
                     tl (dropWhile (\<lambda>x. x \<noteq> newline) r))
          else None
      | _ \<Rightarrow> None)"

text \<open>
  One match of \<open>Scanner.regex\<close> at the start of the text: the alternatives are tried in
  the order of the dictionary \<open>regexes\<close>, each repetition is greedy. The result is
  \<open>match.lastgroup\<close>, \<open>match.group()\<close> and the text after the match; \<open>None\<close> at the
  end of the text. Every alternative consumes a character and the last one matches
  whatever is left but a newline, which the second one matches, so \<open>re.finditer\<close>
  finds each match where the previous one ended.
\<close>

definition regex_match :: "string \<Rightarrow> (string \<times> string \<times> string) option" where
  "regex_match s =
     (case s of
        [] \<Rightarrow> None
      | c # cs \<Rightarrow>
         (case match_comment s of
            Some (v, rest) \<Rightarrow> Some (''COMMENT'', v, rest)
          | None \<Rightarrow>
              if c = newline then Some (''NEWLINE'', [c], cs)
              else if is_digit c then Some (''NUMBER'', takeWhile is_digit s, dropWhile is_digit s)
              else if is_word c then Some (''IDENTIFIER'', takeWhile is_word s, dropWhile is_word s)
              else if is_punctuator c then Some (''PUNCTUATOR'', [c], cs)
              else if is_whitespace c
                then Some (''WHITESPACE'', takeWhile is_whitespace s, dropWhile is_whitespace s)
              else Some (''MISMATCH'', [c], cs)))"

definition scanner_keywords :: "string list" where
  "scanner_keywords = [''module'', ''endmodule'', ''input'', ''output'', ''wire'']"

text \<open>\<open>int(value)\<close> on a text of decimal digits.\<close>

definition int_of_digits :: "string \<Rightarrow> int" where
  "int_of_digits s = foldl (\<lambda>n c. 10 * n + (int (of_char c) - 48)) 0 s"

record token =
  tok_type :: string
  tok_value :: val
  tok_line :: int
  tok_column :: int

text \<open>
  What the generator \<open>Scanner.scan\<close> does when it is consumed: it yields a token and
  goes on, or it is exhausted (\<open>StopIteration\<close>), or it raises.
\<close>

datatype token_gen = Stop | Yield token token_gen | Raise error

lemma regex_match_shorter:
  assumes a: "regex_match s = Some (kind, v, rest)"
  shows "length rest < length s"
proof (cases s)
  case Nil
  with a show ?thesis by (simp add: regex_match_def)
next
  case (Cons c cs)
  have dw: "length (dropWhile P (c # cs)) < length (c # cs)" if "P c" for P
    using that length_dropWhile_le[of P cs] by (simp add: less_Suc_eq_le)
  show ?thesis
  proof (cases "match_comment s")
    case (Some vr)
    with a Cons have r: "match_comment s = Some (v, rest)"
      by (auto simp: regex_match_def)
    then obtain r' where "s = CHR ''/'' # CHR ''/'' # r'"
      "rest = tl (dropWhile (\<lambda>x. x \<noteq> newline) r')"
      by (auto simp: match_comment_def split: list.splits if_splits)
    then show ?thesis
      using length_dropWhile_le[of "\<lambda>x. x \<noteq> newline" r'] by simp
  next
    case None
    with a Cons dw[of is_digit] dw[of is_word] dw[of is_whitespace] show ?thesis
      by (auto simp: regex_match_def split: if_splits)
  qed
qed

text \<open>
  The loop of \<open>Scanner.scan\<close> over the matches. \<open>pos\<close> is \<open>match.start()\<close> of the
  next match, \<open>line\<close> and \<open>start\<close> are the loop's variables.
\<close>

function scan_from :: "int \<Rightarrow> int \<Rightarrow> int \<Rightarrow> string \<Rightarrow> token_gen" where
  "scan_from pos line start s =
     (case regex_match s of
        None \<Rightarrow> Stop
      | Some (kind, v, rest) \<Rightarrow>
         (let column = pos - start + 1; e = pos + int (length v) in
          if kind = ''NUMBER'' then
            Yield \<lparr>tok_type = kind, tok_value = Num (int_of_digits v), tok_line = line, tok_column = column\<rparr>
              (scan_from e line start rest)
          else if kind = ''IDENTIFIER'' \<and> v \<in> set scanner_keywords then
            Yield \<lparr>tok_type = v, tok_value = Str v, tok_line = line, tok_column = column\<rparr>
              (scan_from e line start rest)
          else if kind = ''PUNCTUATOR'' then
            Yield \<lparr>tok_type = v, tok_value = Str v, tok_line = line, tok_column = column\<rparr>
              (scan_from e line start rest)
          else if kind \<in> set [''COMMENT'', ''NEWLINE''] then scan_from e (line + 1) e rest
          else if kind = ''WHITESPACE'' then scan_from e line start rest
          else if kind = ''MISMATCH'' then Raise (RuntimeError_unexpected v column line)
          else
            Yield \<lparr>tok_type = kind, tok_value = Str v, tok_line = line, tok_column = column\<rparr>
              (scan_from e line start rest)))"
  by pat_completeness auto
termination
proof (relation "measure (\<lambda>(pos, line, start, s). length s)", goal_cases)
  case 1
  show ?case by simp
next
  case 2
  then show ?case by - (clarify, drule regex_match_shorter, simp)
next
  case 3
  then show ?case by - (clarify, drule regex_match_shorter, simp)
next
  case 4
  then show ?case by - (clarify, drule regex_match_shorter, simp)
next
  case 5
  then show ?case by - (clarify, drule regex_match_shorter, simp)
next
  case 6
  then show ?case by - (clarify, drule regex_match_shorter, simp)
next
  case 7
  then show ?case by - (clarify, drule regex_match_shorter, simp)
qed

declare scan_from.simps [simp del]

definition scan :: "string \<Rightarrow> token_gen" where
  "scan inp = scan_from 0 1 0 inp"

section \<open>The parser\<close>

text \<open>The attributes of a \<open>Parser\<close>: the generator, the current token and the
  lookahead token; \<open>None\<close> is Python's \<open>None\<close>.\<close>

record parser =
  token_gen :: token_gen
  token :: "token option"
  next_token :: "token option"

text \<open>A call that may raise, followed by the rest of the method: an exception ends the
  method and is passed on.\<close>

definition bind :: "error + 'a \<Rightarrow> ('a \<Rightarrow> error + 'b) \<Rightarrow> error + 'b" where
  "bind r f = (case r of Inl e \<Rightarrow> Inl e | Inr x \<Rightarrow> f x)"

text \<open>\<open>_advance\<close>: only \<open>StopIteration\<close> is caught; an exception of the scanner is
  passed on.\<close>

definition advance :: "parser \<Rightarrow> error + parser" where
  "advance p =
     (case token_gen p of
        Yield t g \<Rightarrow> Inr (p\<lparr>token := next_token p, next_token := Some t, token_gen := g\<rparr>)
      | Stop \<Rightarrow> Inr (p\<lparr>token := next_token p, next_token := None\<rparr>)
      | Raise e \<Rightarrow> Inl e)"

text \<open>\<open>_accept\<close>: \<open>getattr(self.next_token, 'type', None)\<close> is \<open>None\<close> at the end
  of the tokens, which equals no kind.\<close>

definition accept :: "string \<Rightarrow> parser \<Rightarrow> error + bool \<times> parser" where
  "accept kind p =
     (if (case next_token p of None \<Rightarrow> False | Some t \<Rightarrow> tok_type t = kind)
      then bind (advance p) (\<lambda>p'. Inr (True, p'))
      else Inr (False, p))"

text \<open>\<open>_expect\<close>: \<open>self.token.line\<close> raises \<open>AttributeError\<close> when no token has
  been consumed yet.\<close>

definition expect :: "string \<Rightarrow> parser \<Rightarrow> error + parser" where
  "expect kind p =
     bind (accept kind p) (\<lambda>(ok, p').
       if \<not> ok then
         (case token p' of
            None \<Rightarrow> Inl AttributeError
          | Some t \<Rightarrow> Inl (SyntaxError_expected kind (tok_column t) (tok_line t)))
       else Inr p')"

text \<open>\<open>self.token.value\<close> and \<open>self.token.type\<close>.\<close>

definition token_value :: "parser \<Rightarrow> error + val" where
  "token_value p = (case token p of None \<Rightarrow> Inl AttributeError | Some t \<Rightarrow> Inr (tok_value t))"

definition token_type :: "parser \<Rightarrow> error + string" where
  "token_type p = (case token p of None \<Rightarrow> Inl AttributeError | Some t \<Rightarrow> Inr (tok_type t))"

text \<open>The number of tokens not yet consumed, the lookahead included: the measure by
  which the loops of the parser terminate.\<close>

fun pending :: "token_gen \<Rightarrow> nat" where
  "pending Stop = 0"
| "pending (Yield t g) = Suc (pending g)"
| "pending (Raise e) = 0"

definition remaining :: "parser \<Rightarrow> nat" where
  "remaining p = (case next_token p of None \<Rightarrow> 0 | Some t \<Rightarrow> Suc (pending (token_gen p)))"

lemma bind_cong [fundef_cong]:
  "r = r' \<Longrightarrow> (\<And>x. r' = Inr x \<Longrightarrow> f x = f' x) \<Longrightarrow> bind r f = bind r' f'"
  by (auto simp: bind_def split: sum.splits)

lemma bind_weak_cong [cong]: "r = r' \<Longrightarrow> bind r f = bind r' f"
  by simp

lemma bind_Inl [simp]: "bind (Inl e) f = Inl e"
  by (simp add: bind_def)

lemma bind_Inr [simp]: "bind (Inr x) f = f x"
  by (simp add: bind_def)

lemma bind_eq_Inr: "bind r f = Inr y \<longleftrightarrow> (\<exists>x. r = Inr x \<and> f x = Inr y)"
  by (cases r) simp_all

lemma bindE: "bind r f = Inr y \<Longrightarrow> (\<And>x. r = Inr x \<Longrightarrow> f x = Inr y \<Longrightarrow> P) \<Longrightarrow> P"
  by (auto simp: bind_eq_Inr)

lemma accept_remaining:
  assumes "accept kind p = Inr (b, p')"
  shows "if b then remaining p' < remaining p else p' = p"
  using assms
  by (auto simp: accept_def advance_def remaining_def bind_eq_Inr
      split: if_splits option.splits token_gen.splits)

lemma accept_True_less: "accept kind p = Inr (True, p') \<Longrightarrow> remaining p' < remaining p"
  using accept_remaining[of kind p True p'] by simp

lemma accept_False: "accept kind p = Inr (False, p') \<Longrightarrow> p' = p"
  using accept_remaining[of kind p False p'] by simp

lemma accept_le: "accept kind p = Inr (b, p') \<Longrightarrow> remaining p' \<le> remaining p"
  using accept_remaining[of kind p b p'] by (cases b) auto

lemma expect_less: "expect kind p = Inr p' \<Longrightarrow> remaining p' < remaining p"
  by (auto simp: expect_def bind_eq_Inr split: if_splits option.splits dest: accept_True_less)

text \<open>\<open>_parse_arg\<close>, with the docstring
  \<^verbatim>\<open>EBNF: arg = "." identifier "(" identifier ["[" number [":" number] "]"] ")"\<close>.
  The inner conditionals yield the values of \<open>msb\<close> and \<open>lsb\<close> after them.\<close>

definition parse_arg :: "parser \<Rightarrow> error + argument \<times> parser" where
  "parse_arg p =
     bind (expect ''.'' p) (\<lambda>p.
     bind (expect ''IDENTIFIER'' p) (\<lambda>p.
     bind (token_value p) (\<lambda>param.
     bind (expect ''('' p) (\<lambda>p.
     bind (expect ''IDENTIFIER'' p) (\<lambda>p.
     bind (token_value p) (\<lambda>arg.
     bind (accept ''['' p) (\<lambda>(b, p).
     bind (if b then
             bind (expect ''NUMBER'' p) (\<lambda>p.
             bind (token_value p) (\<lambda>msb.
             bind (token_value p) (\<lambda>lsb.
             bind (accept '':'' p) (\<lambda>(c, p).
             bind (if c then
                     bind (expect ''NUMBER'' p) (\<lambda>p.
                     bind (token_value p) (\<lambda>lsb. Inr (lsb, p)))
                   else Inr (lsb, p)) (\<lambda>(lsb, p).
             bind (expect '']'' p) (\<lambda>p. Inr (msb, lsb, p)))))))
           else Inr (Num 0, Num 0, p)) (\<lambda>(msb, lsb, p).
     bind (expect '')'' p) (\<lambda>p.
     Inr (\<lparr>param = param, arg = arg, msb = msb, lsb = lsb\<rparr>, p))))))))))"

lemma parse_arg_less: "parse_arg p = Inr (a, p') \<Longrightarrow> remaining p' < remaining p"
  unfolding parse_arg_def
  by (auto simp: bind_eq_Inr split: if_splits dest!: expect_less accept_le)

text \<open>\<open>_parse_args\<close>, with the docstring \<^verbatim>\<open>EBNF: args = arg {"," arg}\<close>:
  the \<open>while\<close> loop with the list built so far, then the method.\<close>

function args_loop :: "argument list \<Rightarrow> parser \<Rightarrow> error + argument list \<times> parser" where
  "args_loop acc p =
     bind (accept '','' p) (\<lambda>(b, p).
       if b then bind (parse_arg p) (\<lambda>(a, p). args_loop (acc @ [a]) p)
       else Inr (acc, p))"
  by pat_completeness auto
termination
proof (relation "measure (\<lambda>(acc, p). remaining p)", goal_cases)
  case 1
  show ?case by simp
next
  case (2 acc p x b p1 y a p2)
  then have "remaining p1 < remaining p" "remaining p2 < remaining p1"
    by (auto dest: accept_True_less parse_arg_less)
  then show ?case by simp
qed

declare args_loop.simps [simp del]

definition parse_args :: "parser \<Rightarrow> error + argument list \<times> parser" where
  "parse_args p = bind (parse_arg p) (\<lambda>(a, p). args_loop [a] p)"

lemma args_loop_le: "args_loop acc p = Inr (as, p') \<Longrightarrow> remaining p' \<le> remaining p"
proof (induction acc p rule: args_loop.induct)
  case (1 acc p)
  from "1.prems" obtain b p1 where a: "accept '','' p = Inr (b, p1)"
    and r: "(if b then bind (parse_arg p1) (\<lambda>(a, p). args_loop (acc @ [a]) p) else Inr (acc, p1)) = Inr (as, p')"
    by (subst (asm) args_loop.simps) (auto simp: bind_eq_Inr)
  show ?case
  proof (cases b)
    case True
    with r obtain x p2 where pa: "parse_arg p1 = Inr (x, p2)"
      and l: "args_loop (acc @ [x]) p2 = Inr (as, p')"
      by (auto simp: bind_eq_Inr)
    from "1.IH"[OF a refl True pa refl l] parse_arg_less[OF pa] accept_le[OF a]
    show ?thesis by simp
  next
    case False
    with r accept_le[OF a] show ?thesis by simp
  qed
qed

lemma parse_args_less: "parse_args p = Inr (as, p') \<Longrightarrow> remaining p' < remaining p"
  by (auto simp: parse_args_def bind_eq_Inr dest!: parse_arg_less args_loop_le)

text \<open>\<open>_parse_instances\<close>, with the docstring
  \<^verbatim>\<open>EBNF: instance = {identifier identifier "(" args ")" ";"}\<close>.\<close>

function instances_loop :: "inst list \<Rightarrow> parser \<Rightarrow> error + inst list \<times> parser" where
  "instances_loop acc p =
     bind (accept ''IDENTIFIER'' p) (\<lambda>(b, p).
       if b then
         bind (token_value p) (\<lambda>kind.
         bind (expect ''IDENTIFIER'' p) (\<lambda>p.
         bind (token_value p) (\<lambda>nm.
         bind (expect ''('' p) (\<lambda>p.
         bind (parse_args p) (\<lambda>(as, p).
         bind (expect '')'' p) (\<lambda>p.
         bind (expect '';'' p) (\<lambda>p.
         instances_loop (acc @ [\<lparr>inst_type = kind, inst_name = nm, args = as\<rparr>]) p)))))))
       else Inr (acc, p))"
  by pat_completeness auto
termination
proof (relation "measure (\<lambda>(acc, p). remaining p)", goal_cases)
  case 1
  show ?case by simp
next
  case (2 acc p x b p1 kind p2 nm p3 y as p4 p5 p6)
  then have "remaining p1 < remaining p" "remaining p2 < remaining p1" "remaining p3 < remaining p2"
    "remaining p4 < remaining p3" "remaining p5 < remaining p4" "remaining p6 < remaining p5"
    by (auto dest: accept_True_less expect_less parse_args_less)
  then show ?case by simp
qed

declare instances_loop.simps [simp del]

definition parse_instances :: "parser \<Rightarrow> error + inst list \<times> parser" where
  "parse_instances p = instances_loop [] p"

lemma instances_loop_le: "instances_loop acc p = Inr (is, p') \<Longrightarrow> remaining p' \<le> remaining p"
proof (induction acc p rule: instances_loop.induct)
  case (1 acc p)
  from "1.prems" obtain b p1 where a: "accept ''IDENTIFIER'' p = Inr (b, p1)"
    by (subst (asm) instances_loop.simps) (auto simp: bind_eq_Inr)
  show ?case
  proof (cases b)
    case True
    with "1.prems" a obtain kind p2 nm p3 as p4 p5 p6 where
      s: "token_value p1 = Inr kind" "expect ''IDENTIFIER'' p1 = Inr p2" "token_value p2 = Inr nm"
         "expect ''('' p2 = Inr p3" "parse_args p3 = Inr (as, p4)" "expect '')'' p4 = Inr p5"
         "expect '';'' p5 = Inr p6"
      and l: "instances_loop (acc @ [\<lparr>inst_type = kind, inst_name = nm, args = as\<rparr>]) p6 = Inr (is, p')"
      by (subst (asm) instances_loop.simps) (auto simp: bind_eq_Inr)
    from "1.IH"[OF a refl True s(1,2,3,4,5) refl s(6,7) l]
      accept_le[OF a] expect_less[OF s(2)] expect_less[OF s(4)] parse_args_less[OF s(5)]
      expect_less[OF s(6)] expect_less[OF s(7)]
    show ?thesis by simp
  next
    case False
    with "1.prems" a accept_le[OF a] show ?thesis
      by (subst (asm) instances_loop.simps) simp
  qed
qed

text \<open>\<open>_parse_dimensions\<close>, with the docstring
  \<^verbatim>\<open>EBNF: dimensions = ["[" number ":" number "]"]\<close>. The pair it returns and the
  parser after it are given as a triple.\<close>

definition parse_dimensions :: "parser \<Rightarrow> error + val \<times> val \<times> parser" where
  "parse_dimensions p =
     bind (accept ''['' p) (\<lambda>(b, p).
       if b then
         bind (expect ''NUMBER'' p) (\<lambda>p.
         bind (token_value p) (\<lambda>msb.
         bind (expect '':'' p) (\<lambda>p.
         bind (expect ''NUMBER'' p) (\<lambda>p.
         bind (token_value p) (\<lambda>lsb.
         bind (expect '']'' p) (\<lambda>p.
         Inr (msb, lsb, p)))))))
       else Inr (Num 0, Num 0, p))"

lemma parse_dimensions_le: "parse_dimensions p = Inr (m, l, p') \<Longrightarrow> remaining p' \<le> remaining p"
  unfolding parse_dimensions_def
  by (auto simp: bind_eq_Inr split: if_splits dest!: expect_less accept_le)

text \<open>The condition of the loop in \<open>_parse_nets\<close>:
  \<open>self._accept('output') or self._accept('input') or self._accept('wire')\<close>.\<close>

definition accept_net :: "parser \<Rightarrow> error + bool \<times> parser" where
  "accept_net p =
     bind (accept ''output'' p) (\<lambda>(b, p).
       if b then Inr (True, p)
       else bind (accept ''input'' p) (\<lambda>(b, p).
         if b then Inr (True, p) else accept ''wire'' p))"

lemma accept_net_remaining:
  assumes "accept_net p = Inr (b, p')"
  shows "if b then remaining p' < remaining p else p' = p"
  using assms unfolding accept_net_def
  by (auto simp: bind_eq_Inr split: if_splits dest!: accept_False dest: accept_True_less)

text \<open>\<open>_parse_nets\<close>, with the docstring
  \<^verbatim>\<open>EBNF: {("output" | "input" | "wire") [dimensions] identifier ";"}\<close>.\<close>

function nets_loop :: "net list \<Rightarrow> parser \<Rightarrow> error + net list \<times> parser" where
  "nets_loop acc p =
     bind (accept_net p) (\<lambda>(b, p).
       if b then
         bind (token_type p) (\<lambda>kind.
         bind (parse_dimensions p) (\<lambda>(msb, lsb, p).
         bind (expect ''IDENTIFIER'' p) (\<lambda>p.
         bind (token_value p) (\<lambda>nm.
         bind (expect '';'' p) (\<lambda>p.
         nets_loop (acc @ [\<lparr>net_type = kind, net_name = nm, net_msb = msb, net_lsb = lsb\<rparr>]) p)))))
       else Inr (acc, p))"
  by pat_completeness auto
termination
proof (relation "measure (\<lambda>(acc, p). remaining p)", goal_cases)
  case 1
  show ?case by simp
next
  case (2 acc p x b p1)
  then show ?case
    using accept_net_remaining[of p True p1]
    by (auto dest!: expect_less parse_dimensions_le)
qed

declare nets_loop.simps [simp del]

definition parse_nets :: "parser \<Rightarrow> error + net list \<times> parser" where
  "parse_nets p = nets_loop [] p"

lemma nets_loop_le: "nets_loop acc p = Inr (ns, p') \<Longrightarrow> remaining p' \<le> remaining p"
proof (induction acc p rule: nets_loop.induct)
  case (1 acc p)
  from "1.prems" obtain b p1 where a: "accept_net p = Inr (b, p1)"
    by (subst (asm) nets_loop.simps) (auto simp: bind_eq_Inr)
  show ?case
  proof (cases b)
    case True
    with "1.prems" a obtain kind msb lsb p2 p3 nm p4 where
      s: "token_type p1 = Inr kind" "parse_dimensions p1 = Inr (msb, lsb, p2)"
         "expect ''IDENTIFIER'' p2 = Inr p3" "token_value p3 = Inr nm" "expect '';'' p3 = Inr p4"
      and l: "nets_loop (acc @ [\<lparr>net_type = kind, net_name = nm, net_msb = msb, net_lsb = lsb\<rparr>]) p4
              = Inr (ns, p')"
      by (subst (asm) nets_loop.simps) (auto simp: bind_eq_Inr)
    from "1.IH"[OF a refl True s(1,2) refl refl s(3,4,5) l]
      accept_net_remaining[OF a] True parse_dimensions_le[OF s(2)] expect_less[OF s(3)]
      expect_less[OF s(5)]
    show ?thesis by simp
  next
    case False
    with "1.prems" a accept_net_remaining[OF a] show ?thesis
      by (subst (asm) nets_loop.simps) simp
  qed
qed

text \<open>\<open>_parse_params\<close>, with the docstring
  \<^verbatim>\<open>EBNF: params = identifier {"," identifier}\<close>.\<close>

function params_loop :: "val list \<Rightarrow> parser \<Rightarrow> error + val list \<times> parser" where
  "params_loop acc p =
     bind (accept '','' p) (\<lambda>(b, p).
       if b then
         bind (expect ''IDENTIFIER'' p) (\<lambda>p.
         bind (token_value p) (\<lambda>v.
         params_loop (acc @ [v]) p))
       else Inr (acc, p))"
  by pat_completeness auto
termination
proof (relation "measure (\<lambda>(acc, p). remaining p)", goal_cases)
  case 1
  show ?case by simp
next
  case (2 acc p x b p1)
  then show ?case
    by (auto dest!: expect_less accept_True_less)
qed

declare params_loop.simps [simp del]

definition parse_params :: "parser \<Rightarrow> error + val list \<times> parser" where
  "parse_params p =
     bind (expect ''IDENTIFIER'' p) (\<lambda>p.
     bind (token_value p) (\<lambda>v.
     params_loop [v] p))"

lemma params_loop_le: "params_loop acc p = Inr (ps, p') \<Longrightarrow> remaining p' \<le> remaining p"
proof (induction acc p rule: params_loop.induct)
  case (1 acc p)
  from "1.prems" obtain b p1 where a: "accept '','' p = Inr (b, p1)"
    by (subst (asm) params_loop.simps) (auto simp: bind_eq_Inr)
  show ?case
  proof (cases b)
    case True
    with "1.prems" a obtain p2 v where
      s: "expect ''IDENTIFIER'' p1 = Inr p2" "token_value p2 = Inr v"
      and l: "params_loop (acc @ [v]) p2 = Inr (ps, p')"
      by (subst (asm) params_loop.simps) (auto simp: bind_eq_Inr)
    from "1.IH"[OF a refl True s l] accept_le[OF a] expect_less[OF s(1)]
    show ?thesis by simp
  next
    case False
    with "1.prems" a accept_le[OF a] show ?thesis
      by (subst (asm) params_loop.simps) simp
  qed
qed

lemma parse_params_less: "parse_params p = Inr (ps, p') \<Longrightarrow> remaining p' < remaining p"
  by (auto simp: parse_params_def bind_eq_Inr dest!: expect_less params_loop_le)

lemma parse_nets_le: "parse_nets p = Inr (ns, p') \<Longrightarrow> remaining p' \<le> remaining p"
  unfolding parse_nets_def by (rule nets_loop_le)

lemma parse_instances_le: "parse_instances p = Inr (is, p') \<Longrightarrow> remaining p' \<le> remaining p"
  unfolding parse_instances_def by (rule instances_loop_le)

text \<open>\<open>_parse_file\<close>, with the docstring
  \<^verbatim>\<open>EBNF: file = {"module" identifier "(" params ")" ";" nets instances "endmodule"}\<close>.\<close>

function file_loop :: "module list \<Rightarrow> parser \<Rightarrow> error + module list \<times> parser" where
  "file_loop acc p =
     bind (accept ''module'' p) (\<lambda>(b, p).
       if b then
         bind (expect ''IDENTIFIER'' p) (\<lambda>p.
         bind (token_value p) (\<lambda>nm.
         bind (expect ''('' p) (\<lambda>p.
         bind (parse_params p) (\<lambda>(ps, p).
         bind (expect '')'' p) (\<lambda>p.
         bind (expect '';'' p) (\<lambda>p.
         bind (parse_nets p) (\<lambda>(ns, p).
         bind (parse_instances p) (\<lambda>(is, p).
         bind (expect ''endmodule'' p) (\<lambda>p.
         file_loop (acc @ [\<lparr>name = nm, params = ps, nets = ns, instances = is\<rparr>]) p)))))))))
       else Inr (acc, p))"
  by pat_completeness auto
termination
proof (relation "measure (\<lambda>(acc, p). remaining p)", goal_cases)
  case 1
  show ?case by simp
next
  case (2 acc p x b p1)
  then show ?case
    by (auto dest!: expect_less accept_True_less parse_params_less parse_nets_le parse_instances_le)
qed

declare file_loop.simps [simp del]

definition parse_file :: "parser \<Rightarrow> error + design \<times> parser" where
  "parse_file p = bind (file_loop [] p) (\<lambda>(ms, p). Inr (Design ms, p))"

text \<open>\<open>parse\<close>, on a new \<open>Parser\<close>: both tokens are \<open>None\<close> before the first
  \<open>_advance\<close>.\<close>

definition parse :: "string \<Rightarrow> error + design" where
  "parse inp =
     bind (advance \<lparr>token_gen = scan inp, token = None, next_token = None\<rparr>) (\<lambda>p.
     bind (parse_file p) (\<lambda>(parsed_design, p).
     if next_token p \<noteq> None then Inl SyntaxError_eof else Inr parsed_design))"

section \<open>Notions for the properties of the scanner and the parser\<close>

text \<open>The tokens a generator yields, how it ends (\<open>None\<close>: exhausted; an error: it
  raised), and the generator that yields the given tokens first.\<close>

primrec gen_tokens :: "token_gen \<Rightarrow> token list" where
  "gen_tokens Stop = []"
| "gen_tokens (Yield t g) = t # gen_tokens g"
| "gen_tokens (Raise e) = []"

primrec gen_end :: "token_gen \<Rightarrow> error option" where
  "gen_end Stop = None"
| "gen_end (Yield t g) = gen_end g"
| "gen_end (Raise e) = Some e"

primrec feed :: "token list \<Rightarrow> token_gen \<Rightarrow> token_gen" where
  "feed [] g = g"
| "feed (t # ts) g = Yield t (feed ts g)"

text \<open>
  Positions in a text. For the text \<open>pre\<close> before a character, \<open>line_of pre\<close> is the
  1-based line of that character (one more than the newlines before it) and
  \<open>col_of pre\<close> its 1-based column (one more than the characters after the last newline
  before it).
\<close>

definition nl_count :: "string \<Rightarrow> int" where
  "nl_count s = int (length (filter (\<lambda>c. c = newline) s))"

definition last_line :: "string \<Rightarrow> string" where
  "last_line s = rev (takeWhile (\<lambda>c. c \<noteq> newline) (rev s))"

definition line_of :: "string \<Rightarrow> int" where
  "line_of pre = 1 + nl_count pre"

definition col_of :: "string \<Rightarrow> int" where
  "col_of pre = 1 + int (length (last_line pre))"

text \<open>The value of the scanner's variable \<open>start\<close> after the text \<open>pre\<close> has been
  matched from offset \<open>pos\<close>.\<close>

definition start_after :: "int \<Rightarrow> int \<Rightarrow> string \<Rightarrow> int" where
  "start_after pos start pre =
     (if newline \<in> set pre then pos + int (length pre) - int (length (last_line pre)) else start)"

text \<open>A text that cannot lengthen a match that ends before it: it is empty or starts
  with a character that is neither a word character nor horizontal whitespace.\<close>

definition sep :: "string \<Rightarrow> bool" where
  "sep s = (case s of [] \<Rightarrow> True | c # cs \<Rightarrow> \<not> is_word c \<and> \<not> is_whitespace c)"

text \<open>The tokens that one match other than a mismatch yields (none or one), and whether
  it starts a new line.\<close>

definition emit :: "string \<Rightarrow> string \<Rightarrow> int \<Rightarrow> int \<Rightarrow> token list" where
  "emit kind v line column =
     (if kind = ''NUMBER'' then
        [\<lparr>tok_type = kind, tok_value = Num (int_of_digits v), tok_line = line, tok_column = column\<rparr>]
      else if kind = ''IDENTIFIER'' \<and> v \<in> set scanner_keywords then
        [\<lparr>tok_type = v, tok_value = Str v, tok_line = line, tok_column = column\<rparr>]
      else if kind = ''PUNCTUATOR'' then
        [\<lparr>tok_type = v, tok_value = Str v, tok_line = line, tok_column = column\<rparr>]
      else if kind \<in> set [''COMMENT'', ''NEWLINE'', ''WHITESPACE''] then []
      else [\<lparr>tok_type = kind, tok_value = Str v, tok_line = line, tok_column = column\<rparr>])"

definition breaks_line :: "string \<Rightarrow> bool" where
  "breaks_line kind = (kind \<in> set [''COMMENT'', ''NEWLINE''])"

text \<open>
  The state of the parser that stands before the tokens of a generator: \<open>pstate cur g\<close>
  has \<open>cur\<close> as current token and the first token of \<open>g\<close> as lookahead, the rest of
  \<open>g\<close> still to be pulled. \<open>ready g\<close>: pulling the next token from \<open>g\<close> does not
  raise. \<open>next_type g\<close> is the kind of the first token of \<open>g\<close>, and
  \<open>cur_after cur ts\<close> the current token after the tokens \<open>ts\<close> have been consumed.
\<close>

definition ready :: "token_gen \<Rightarrow> bool" where
  "ready g = (case g of Raise e \<Rightarrow> False | _ \<Rightarrow> True)"

definition pstate :: "token option \<Rightarrow> token_gen \<Rightarrow> parser" where
  "pstate cur g =
     (case g of
        Yield t g' \<Rightarrow> \<lparr>token_gen = g', token = cur, next_token = Some t\<rparr>
      | _ \<Rightarrow> \<lparr>token_gen = Stop, token = cur, next_token = None\<rparr>)"

definition next_type :: "token_gen \<Rightarrow> string option" where
  "next_type g = (case g of Yield t g' \<Rightarrow> Some (tok_type t) | _ \<Rightarrow> None)"

definition cur_after :: "token option \<Rightarrow> token list \<Rightarrow> token option" where
  "cur_after cur ts = (if ts = [] then cur else Some (last ts))"

text \<open>
  The grammar of the specification (section 4.3), production by production, as relations
  between a list of tokens and the value it denotes: a token list is in the language of
  a nonterminal exactly when it is related to some value.
  \<^verbatim>\<open>arg = "." IDENTIFIER "(" IDENTIFIER [ "[" NUMBER [ ":" NUMBER ] "]" ] ")"\<close> and
  \<^verbatim>\<open>args = arg { "," arg }\<close>:
\<close>

inductive arg_rep :: "token list \<Rightarrow> argument \<Rightarrow> bool" where
  plain: "map tok_type [d, i1, l, i2, r] = [''.'', ''IDENTIFIER'', ''('', ''IDENTIFIER'', '')''] \<Longrightarrow>
     arg_rep [d, i1, l, i2, r]
       \<lparr>param = tok_value i1, arg = tok_value i2, msb = Num 0, lsb = Num 0\<rparr>"
| bit: "map tok_type [d, i1, l, i2, lb, n, rb, r] =
       [''.'', ''IDENTIFIER'', ''('', ''IDENTIFIER'', ''['', ''NUMBER'', '']'', '')''] \<Longrightarrow>
     arg_rep [d, i1, l, i2, lb, n, rb, r]
       \<lparr>param = tok_value i1, arg = tok_value i2, msb = tok_value n, lsb = tok_value n\<rparr>"
| range: "map tok_type [d, i1, l, i2, lb, n1, c, n2, rb, r] =
       [''.'', ''IDENTIFIER'', ''('', ''IDENTIFIER'', ''['', ''NUMBER'', '':'', ''NUMBER'', '']'', '')''] \<Longrightarrow>
     arg_rep [d, i1, l, i2, lb, n1, c, n2, rb, r]
       \<lparr>param = tok_value i1, arg = tok_value i2, msb = tok_value n1, lsb = tok_value n2\<rparr>"

inductive more_args_rep :: "token list \<Rightarrow> argument list \<Rightarrow> bool" where
  none: "more_args_rep [] []"
| more: "tok_type c = '','' \<Longrightarrow> arg_rep ts a \<Longrightarrow> more_args_rep ts' as \<Longrightarrow>
     more_args_rep (c # ts @ ts') (a # as)"

inductive args_rep :: "token list \<Rightarrow> argument list \<Rightarrow> bool" where
  "arg_rep ts a \<Longrightarrow> more_args_rep ts' as \<Longrightarrow> args_rep (ts @ ts') (a # as)"

text \<open>\<^verbatim>\<open>params = IDENTIFIER { "," IDENTIFIER }\<close>:\<close>

inductive more_params_rep :: "token list \<Rightarrow> val list \<Rightarrow> bool" where
  none: "more_params_rep [] []"
| more: "tok_type c = '','' \<Longrightarrow> tok_type i = ''IDENTIFIER'' \<Longrightarrow> more_params_rep ts ps \<Longrightarrow>
     more_params_rep (c # i # ts) (tok_value i # ps)"

inductive params_rep :: "token list \<Rightarrow> val list \<Rightarrow> bool" where
  "tok_type i = ''IDENTIFIER'' \<Longrightarrow> more_params_rep ts ps \<Longrightarrow>
     params_rep (i # ts) (tok_value i # ps)"

text \<open>\<^verbatim>\<open>dims = [ "[" NUMBER ":" NUMBER "]" ]\<close> and
  \<^verbatim>\<open>nets = { ("input"|"output"|"wire") dims IDENTIFIER ";" }\<close>:\<close>

inductive dims_rep :: "token list \<Rightarrow> val \<times> val \<Rightarrow> bool" where
  absent: "dims_rep [] (Num 0, Num 0)"
| present: "map tok_type [lb, n1, c, n2, rb] = [''['', ''NUMBER'', '':'', ''NUMBER'', '']''] \<Longrightarrow>
     dims_rep [lb, n1, c, n2, rb] (tok_value n1, tok_value n2)"

inductive net_rep :: "token list \<Rightarrow> net \<Rightarrow> bool" where
  "tok_type k \<in> {''input'', ''output'', ''wire''} \<Longrightarrow> dims_rep ds (m, l) \<Longrightarrow>
   tok_type i = ''IDENTIFIER'' \<Longrightarrow> tok_type s = '';'' \<Longrightarrow>
     net_rep (k # ds @ [i, s])
       \<lparr>net_type = tok_type k, net_name = tok_value i, net_msb = m, net_lsb = l\<rparr>"

inductive nets_rep :: "token list \<Rightarrow> net list \<Rightarrow> bool" where
  none: "nets_rep [] []"
| more: "net_rep ts n \<Longrightarrow> nets_rep ts' ns \<Longrightarrow> nets_rep (ts @ ts') (n # ns)"

text \<open>\<^verbatim>\<open>instances = { IDENTIFIER IDENTIFIER "(" args ")" ";" }\<close>:\<close>

inductive instance_rep :: "token list \<Rightarrow> inst \<Rightarrow> bool" where
  "map tok_type [t, n, l] = [''IDENTIFIER'', ''IDENTIFIER'', ''(''] \<Longrightarrow> args_rep ts as \<Longrightarrow>
   map tok_type [r, s] = ['')'', '';''] \<Longrightarrow>
     instance_rep ([t, n, l] @ ts @ [r, s])
       \<lparr>inst_type = tok_value t, inst_name = tok_value n, args = as\<rparr>"

inductive instances_rep :: "token list \<Rightarrow> inst list \<Rightarrow> bool" where
  none: "instances_rep [] []"
| more: "instance_rep ts i \<Longrightarrow> instances_rep ts' is \<Longrightarrow> instances_rep (ts @ ts') (i # is)"

text \<open>\<^verbatim>\<open>file = { "module" IDENTIFIER "(" params ")" ";" nets instances "endmodule" }\<close>:\<close>

inductive module_rep :: "token list \<Rightarrow> module \<Rightarrow> bool" where
  "map tok_type [m, i, l] = [''module'', ''IDENTIFIER'', ''(''] \<Longrightarrow> params_rep pts ps \<Longrightarrow>
   map tok_type [r, s] = ['')'', '';''] \<Longrightarrow> nets_rep nts ns \<Longrightarrow> instances_rep its is \<Longrightarrow>
   tok_type e = ''endmodule'' \<Longrightarrow>
     module_rep ([m, i, l] @ pts @ [r, s] @ nts @ its @ [e])
       \<lparr>name = tok_value i, params = ps, nets = ns, instances = is\<rparr>"

inductive file_rep :: "token list \<Rightarrow> module list \<Rightarrow> bool" where
  none: "file_rep [] []"
| more: "module_rep ts m \<Longrightarrow> file_rep ts' ms \<Longrightarrow> file_rep (ts @ ts') (m # ms)"


text \<open>The constructor of the named tuple \<open>Token\<close>.\<close>

definition Token :: "string \<Rightarrow> val \<Rightarrow> int \<Rightarrow> int \<Rightarrow> token" where
  "Token kind v line column = \<lparr>tok_type = kind, tok_value = v, tok_line = line, tok_column = column\<rparr>"

text \<open>
  The calls of \<open>_expect\<close> in the parser, method by method. A call fails when the
  lookahead is not of the expected kind; it is reached only when the calls of
  \<open>_accept\<close> made since the last token was consumed have failed too.
  \<open>refused A g\<close>: the lookahead that \<open>g\<close> gives is of no kind in \<open>A\<close>: the tokens
  have ended, or the next token has another kind (a generator that raises gives no
  lookahead).
\<close>

definition refused :: "string set \<Rightarrow> token_gen \<Rightarrow> bool" where
  "refused A g = (case g of Yield t g' \<Rightarrow> tok_type t \<notin> A | Stop \<Rightarrow> True | Raise e \<Rightarrow> False)"

text \<open>
  \<open>arg_stuck pre k A\<close>: when the tokens \<open>pre\<close> have been consumed since \<open>_parse_arg\<close>
  was entered, the next call is \<open>_expect(k)\<close>, and \<open>A\<close> holds \<open>k\<close> and the kinds of
  the calls of \<open>_accept\<close> made after the last token of \<open>pre\<close>. One rule for each way
  to reach each of the eight calls of \<open>_expect\<close> in \<open>_parse_arg\<close>; likewise for the
  other methods, where a rule with a premise on another method stands for the calls
  inside that method. The tokens of a loop are those of the complete iterations and of
  the one that is under way.
\<close>

inductive arg_stuck :: "token list \<Rightarrow> string \<Rightarrow> string set \<Rightarrow> bool" where
  dot: "arg_stuck [] ''.'' {''.''}"
| port: "map tok_type [d] = [''.''] \<Longrightarrow> arg_stuck [d] ''IDENTIFIER'' {''IDENTIFIER''}"
| lpar: "map tok_type [d, i1] = [''.'', ''IDENTIFIER''] \<Longrightarrow> arg_stuck [d, i1] ''('' {''(''}"
| net: "map tok_type [d, i1, l] = [''.'', ''IDENTIFIER'', ''(''] \<Longrightarrow>
     arg_stuck [d, i1, l] ''IDENTIFIER'' {''IDENTIFIER''}"
| rpar: "map tok_type [d, i1, l, i2] = [''.'', ''IDENTIFIER'', ''('', ''IDENTIFIER''] \<Longrightarrow>
     arg_stuck [d, i1, l, i2] '')'' {''['', '')''}"
| msb: "map tok_type [d, i1, l, i2, lb] = [''.'', ''IDENTIFIER'', ''('', ''IDENTIFIER'', ''[''] \<Longrightarrow>
     arg_stuck [d, i1, l, i2, lb] ''NUMBER'' {''NUMBER''}"
| rbr: "map tok_type [d, i1, l, i2, lb, n] =
       [''.'', ''IDENTIFIER'', ''('', ''IDENTIFIER'', ''['', ''NUMBER''] \<Longrightarrow>
     arg_stuck [d, i1, l, i2, lb, n] '']'' {'':'', '']''}"
| lsb: "map tok_type [d, i1, l, i2, lb, n1, c] =
       [''.'', ''IDENTIFIER'', ''('', ''IDENTIFIER'', ''['', ''NUMBER'', '':''] \<Longrightarrow>
     arg_stuck [d, i1, l, i2, lb, n1, c] ''NUMBER'' {''NUMBER''}"
| rbr_range: "map tok_type [d, i1, l, i2, lb, n1, c, n2] =
       [''.'', ''IDENTIFIER'', ''('', ''IDENTIFIER'', ''['', ''NUMBER'', '':'', ''NUMBER''] \<Longrightarrow>
     arg_stuck [d, i1, l, i2, lb, n1, c, n2] '']'' {'']''}"
| rpar_bit: "map tok_type [d, i1, l, i2, lb, n, rb] =
       [''.'', ''IDENTIFIER'', ''('', ''IDENTIFIER'', ''['', ''NUMBER'', '']''] \<Longrightarrow>
     arg_stuck [d, i1, l, i2, lb, n, rb] '')'' {'')''}"
| rpar_range: "map tok_type [d, i1, l, i2, lb, n1, c, n2, rb] =
       [''.'', ''IDENTIFIER'', ''('', ''IDENTIFIER'', ''['', ''NUMBER'', '':'', ''NUMBER'', '']''] \<Longrightarrow>
     arg_stuck [d, i1, l, i2, lb, n1, c, n2, rb] '')'' {'')''}"

inductive args_stuck :: "token list \<Rightarrow> string \<Rightarrow> string set \<Rightarrow> bool" where
  first: "arg_stuck pre k A \<Longrightarrow> args_stuck pre k A"
| later: "args_rep ts as \<Longrightarrow> tok_type c = '','' \<Longrightarrow> arg_stuck pre k A \<Longrightarrow>
     args_stuck (ts @ c # pre) k A"

inductive instance_stuck :: "token list \<Rightarrow> string \<Rightarrow> string set \<Rightarrow> bool" where
  name: "tok_type t = ''IDENTIFIER'' \<Longrightarrow> instance_stuck [t] ''IDENTIFIER'' {''IDENTIFIER''}"
| lpar: "map tok_type [t, n] = [''IDENTIFIER'', ''IDENTIFIER''] \<Longrightarrow>
     instance_stuck [t, n] ''('' {''(''}"
| args: "map tok_type [t, n, l] = [''IDENTIFIER'', ''IDENTIFIER'', ''(''] \<Longrightarrow>
     args_stuck pre k A \<Longrightarrow> instance_stuck ([t, n, l] @ pre) k A"
| rpar: "map tok_type [t, n, l] = [''IDENTIFIER'', ''IDENTIFIER'', ''(''] \<Longrightarrow>
     args_rep ts as \<Longrightarrow> instance_stuck ([t, n, l] @ ts) '')'' {'','', '')''}"
| semi: "map tok_type [t, n, l] = [''IDENTIFIER'', ''IDENTIFIER'', ''(''] \<Longrightarrow>
     args_rep ts as \<Longrightarrow> tok_type r = '')'' \<Longrightarrow>
     instance_stuck ([t, n, l] @ ts @ [r]) '';'' {'';''}"

inductive instances_stuck :: "token list \<Rightarrow> string \<Rightarrow> string set \<Rightarrow> bool" where
  "instances_rep ts is \<Longrightarrow> instance_stuck pre k A \<Longrightarrow> instances_stuck (ts @ pre) k A"

inductive params_stuck :: "token list \<Rightarrow> string \<Rightarrow> string set \<Rightarrow> bool" where
  first: "params_stuck [] ''IDENTIFIER'' {''IDENTIFIER''}"
| later: "params_rep ts ps \<Longrightarrow> tok_type c = '','' \<Longrightarrow>
     params_stuck (ts @ [c]) ''IDENTIFIER'' {''IDENTIFIER''}"

inductive dims_stuck :: "token list \<Rightarrow> string \<Rightarrow> string set \<Rightarrow> bool" where
  msb: "tok_type lb = ''['' \<Longrightarrow> dims_stuck [lb] ''NUMBER'' {''NUMBER''}"
| colon: "map tok_type [lb, n1] = [''['', ''NUMBER''] \<Longrightarrow> dims_stuck [lb, n1] '':'' {'':''}"
| lsb: "map tok_type [lb, n1, c] = [''['', ''NUMBER'', '':''] \<Longrightarrow>
     dims_stuck [lb, n1, c] ''NUMBER'' {''NUMBER''}"
| rbr: "map tok_type [lb, n1, c, n2] = [''['', ''NUMBER'', '':'', ''NUMBER''] \<Longrightarrow>
     dims_stuck [lb, n1, c, n2] '']'' {'']''}"

inductive net_stuck :: "token list \<Rightarrow> string \<Rightarrow> string set \<Rightarrow> bool" where
  name: "tok_type k \<in> {''input'', ''output'', ''wire''} \<Longrightarrow>
     net_stuck [k] ''IDENTIFIER'' {''['', ''IDENTIFIER''}"
| dims: "tok_type k \<in> {''input'', ''output'', ''wire''} \<Longrightarrow> dims_stuck pre kd A \<Longrightarrow>
     net_stuck (k # pre) kd A"
| name_dims: "tok_type k \<in> {''input'', ''output'', ''wire''} \<Longrightarrow> dims_rep ds (m, l) \<Longrightarrow>
     ds \<noteq> [] \<Longrightarrow> net_stuck (k # ds) ''IDENTIFIER'' {''IDENTIFIER''}"
| semi: "tok_type k \<in> {''input'', ''output'', ''wire''} \<Longrightarrow> dims_rep ds (m, l) \<Longrightarrow>
     tok_type i = ''IDENTIFIER'' \<Longrightarrow> net_stuck (k # ds @ [i]) '';'' {'';''}"

inductive nets_stuck :: "token list \<Rightarrow> string \<Rightarrow> string set \<Rightarrow> bool" where
  "nets_rep ts ns \<Longrightarrow> net_stuck pre k A \<Longrightarrow> nets_stuck (ts @ pre) k A"

inductive module_stuck :: "token list \<Rightarrow> string \<Rightarrow> string set \<Rightarrow> bool" where
  name: "tok_type m = ''module'' \<Longrightarrow> module_stuck [m] ''IDENTIFIER'' {''IDENTIFIER''}"
| lpar: "map tok_type [m, i] = [''module'', ''IDENTIFIER''] \<Longrightarrow> module_stuck [m, i] ''('' {''(''}"
| params: "map tok_type [m, i, l] = [''module'', ''IDENTIFIER'', ''(''] \<Longrightarrow>
     params_stuck pre k A \<Longrightarrow> module_stuck ([m, i, l] @ pre) k A"
| rpar: "map tok_type [m, i, l] = [''module'', ''IDENTIFIER'', ''(''] \<Longrightarrow> params_rep pts ps \<Longrightarrow>
     module_stuck ([m, i, l] @ pts) '')'' {'','', '')''}"
| semi: "map tok_type [m, i, l] = [''module'', ''IDENTIFIER'', ''(''] \<Longrightarrow> params_rep pts ps \<Longrightarrow>
     tok_type r = '')'' \<Longrightarrow> module_stuck ([m, i, l] @ pts @ [r]) '';'' {'';''}"
| nets: "map tok_type [m, i, l] = [''module'', ''IDENTIFIER'', ''(''] \<Longrightarrow> params_rep pts ps \<Longrightarrow>
     map tok_type [r, s] = ['')'', '';''] \<Longrightarrow> nets_stuck pre k A \<Longrightarrow>
     module_stuck ([m, i, l] @ pts @ [r, s] @ pre) k A"
| instances: "map tok_type [m, i, l] = [''module'', ''IDENTIFIER'', ''(''] \<Longrightarrow> params_rep pts ps \<Longrightarrow>
     map tok_type [r, s] = ['')'', '';''] \<Longrightarrow> nets_rep nts ns \<Longrightarrow> instances_stuck pre k A \<Longrightarrow>
     module_stuck ([m, i, l] @ pts @ [r, s] @ nts @ pre) k A"
| end_nets: "map tok_type [m, i, l] = [''module'', ''IDENTIFIER'', ''(''] \<Longrightarrow> params_rep pts ps \<Longrightarrow>
     map tok_type [r, s] = ['')'', '';''] \<Longrightarrow> nets_rep nts ns \<Longrightarrow>
     module_stuck ([m, i, l] @ pts @ [r, s] @ nts) ''endmodule''
       {''input'', ''output'', ''wire'', ''IDENTIFIER'', ''endmodule''}"
| end_instances: "map tok_type [m, i, l] = [''module'', ''IDENTIFIER'', ''(''] \<Longrightarrow> params_rep pts ps \<Longrightarrow>
     map tok_type [r, s] = ['')'', '';''] \<Longrightarrow> nets_rep nts ns \<Longrightarrow> instances_rep its is \<Longrightarrow>
     its \<noteq> [] \<Longrightarrow>
     module_stuck ([m, i, l] @ pts @ [r, s] @ nts @ its) ''endmodule'' {''IDENTIFIER'', ''endmodule''}"

inductive file_stuck :: "token list \<Rightarrow> string \<Rightarrow> string set \<Rightarrow> bool" where
  "file_rep ts ms \<Longrightarrow> module_stuck pre k A \<Longrightarrow> file_stuck (ts @ pre) k A"

text \<open>
  The three ways in which a method of the parser ends, when it is called with the
  current token \<open>cur\<close> before the tokens of \<open>g\<close>, for a nonterminal with the texts
  \<open>rep\<close> and the calls of \<open>_expect\<close> \<open>stuck\<close>. \<open>ok\<close>: it returns the value \<open>v\<close> of a
  text \<open>ts\<close> of the nonterminal, having consumed \<open>ts\<close>, and the lookahead is of no kind
  in \<open>X ts\<close>, the kinds with which the text would go on. \<open>stuck\<close>: it raises the syntax
  error of a call of \<open>_expect(k)\<close> that the tokens \<open>pre\<close> lead to, with the column and
  line of the current token \<open>t\<close> after \<open>pre\<close>. \<open>lex\<close>: it raises the exception of
  the scanner.
\<close>

inductive run :: "(token list \<Rightarrow> 'v \<Rightarrow> bool) \<Rightarrow> (token list \<Rightarrow> string \<Rightarrow> string set \<Rightarrow> bool) \<Rightarrow>
    (token list \<Rightarrow> string set) \<Rightarrow> token option \<Rightarrow> token_gen \<Rightarrow> error + 'v \<times> parser \<Rightarrow> bool"
  for rep stuck X cur where
  ok: "p = pstate (cur_after cur ts) g \<Longrightarrow> refused (X ts) g \<Longrightarrow> rep ts v \<Longrightarrow>
     run rep stuck X cur (feed ts g) (Inr (v, p))"
| stuck: "cur_after cur pre = Some t \<Longrightarrow> refused A g \<Longrightarrow> stuck pre k A \<Longrightarrow>
     run rep stuck X cur (feed pre g) (Inl (SyntaxError_expected k (tok_column t) (tok_line t)))"
| lex: "gen_end g = Some e \<Longrightarrow> run rep stuck X cur g (Inl e)"

section \<open>Properties of the instance counter\<close>

lemma frame_both:
  "(\<forall>c st'. Module_count_instances f ms m st = Some (Inr (c, st')) \<longrightarrow>
      st' (name m) = Some c \<and> (\<forall>n x. st n = Some x \<longrightarrow> st' n = Some x))"
  "(\<forall>st'. count_loop f ms self is st = Some (Inr st') \<longrightarrow> st (name self) \<noteq> None \<longrightarrow>
      st' (name self) \<noteq> None \<and> (\<forall>n x. st n = Some x \<longrightarrow> n \<noteq> name self \<longrightarrow> st' n = Some x))"
proof (induction f ms m st and f ms self "is" st rule: Module_count_instances_count_loop.induct)
  case (1 ms self st)
  then show ?case by simp
next
  case (2 n ms self st)
  show ?case
  proof (cases "st (name self)")
    case (Some c)
    then show ?thesis by auto
  next
    case None
    let ?st1 = "st(name self \<mapsto> {#})"
    have ih: "\<forall>st'. count_loop n ms self (instances self) ?st1 = Some (Inr st') \<longrightarrow>
       st' (name self) \<noteq> None \<and> (\<forall>k x. ?st1 k = Some x \<longrightarrow> k \<noteq> name self \<longrightarrow> st' k = Some x)"
    proof -
      have "?st1 (name self) \<noteq> None" by simp
      with "2.IH"[OF None] show ?thesis by blast
    qed
    show ?thesis
    proof (intro allI impI)
      fix c st'
      assume a: "Module_count_instances (Suc n) ms self st = Some (Inr (c, st'))"
      from a None have l: "count_loop n ms self (instances self) ?st1 = Some (Inr st')"
        by (auto split: option.splits sum.splits)
      from a None l have c: "st' (name self) = Some c"
        by (auto split: option.splits sum.splits)
      have "\<forall>k x. st k = Some x \<longrightarrow> st' k = Some x"
      proof (intro allI impI)
        fix k x assume s: "st k = Some x"
        with None have "k \<noteq> name self" by auto
        with ih l s show "st' k = Some x" by simp
      qed
      with c show "st' (name self) = Some c \<and> (\<forall>n x. st n = Some x \<longrightarrow> st' n = Some x)" by simp
    qed
  qed
next
  case (3 n ms self st)
  then show ?case by simp
next
  case (4 n ms self i rest st)
  show ?case
  proof (intro allI impI)
    fix st'
    assume a: "count_loop n ms self (i # rest) st = Some (Inr st')"
       and b: "st (name self) \<noteq> None"
    from b obtain c where c: "st (name self) = Some c" by auto
    define st1 where "st1 = st(name self \<mapsto> add_mset (inst_type i) c)"
    show "st' (name self) \<noteq> None \<and> (\<forall>k x. st k = Some x \<longrightarrow> k \<noteq> name self \<longrightarrow> st' k = Some x)"
    proof (cases "ms (inst_type i)")
      case None
      with a c have l: "count_loop n ms self rest st1 = Some (Inr st')"
        by (simp add: st1_def)
      have "st1 (name self) \<noteq> None" by (simp add: st1_def)
      with "4.IH"(1)[OF c st1_def None] l
      have "st' (name self) \<noteq> None \<and> (\<forall>k x. st1 k = Some x \<longrightarrow> k \<noteq> name self \<longrightarrow> st' k = Some x)"
        by blast
      then show ?thesis by (simp add: st1_def)
    next
      case (Some m)
      with a c obtain r st2 where
        r: "Module_count_instances n ms m st1 = Some (Inr (r, st2))"
        by (auto simp: st1_def Let_def split: option.splits sum.splits)
      from "4.IH"(2)[OF c st1_def Some] r
      have f2: "st2 (name m) = Some r" "\<And>k x. st1 k = Some x \<Longrightarrow> st2 k = Some x"
        by blast+
      have "st1 (name self) = Some (add_mset (inst_type i) c)" by (simp add: st1_def)
      then have c2: "st2 (name self) = Some (add_mset (inst_type i) c)" by (rule f2(2))
      define st3 where "st3 = st2(name self \<mapsto> add_mset (inst_type i) c + r)"
      from a c Some r c2 have l: "count_loop n ms self rest st3 = Some (Inr st')"
        by (simp add: st1_def[symmetric] st3_def)
      have "st3 (name self) \<noteq> None" by (simp add: st3_def)
      with "4.IH"(3)[OF c st1_def Some r refl refl c2, folded st3_def] l
      have g: "st' (name self) \<noteq> None \<and> (\<forall>k x. st3 k = Some x \<longrightarrow> k \<noteq> name self \<longrightarrow> st' k = Some x)"
        by blast
      show ?thesis
      proof (intro conjI allI impI)
        from g show "st' (name self) \<noteq> None" by simp
      next
        fix k x assume "st k = Some x" "k \<noteq> name self"
        then have "st1 k = Some x" by (simp add: st1_def)
        then have "st2 k = Some x" by (rule f2(2))
        with \<open>k \<noteq> name self\<close> have "st3 k = Some x" by (simp add: st3_def)
        with g \<open>k \<noteq> name self\<close> show "st' k = Some x" by simp
      qed
    qed
  qed
qed

lemma count_frame:
  assumes "Module_count_instances f ms m st = Some (Inr (c, st'))"
  shows "st' (name m) = Some c" and "st n = Some x \<Longrightarrow> st' n = Some x"
  using frame_both(1)[of f ms m st] assms by blast+

lemma loop_frame:
  assumes "count_loop f ms self is st = Some (Inr st')" "st (name self) \<noteq> None"
  shows "st' (name self) \<noteq> None" and "st n = Some x \<Longrightarrow> n \<noteq> name self \<Longrightarrow> st' n = Some x"
  using frame_both(2)[of f ms self "is" st] assms by blast+

lemma no_error_both:
  "Module_count_instances f ms m st \<noteq> Some (Inl e)"
  "st (name self) \<noteq> None \<longrightarrow> count_loop f ms self is st \<noteq> Some (Inl e)"
proof (induction f ms m st and f ms self "is" st rule: Module_count_instances_count_loop.induct)
  case (1 ms self st)
  then show ?case by simp
next
  case (2 n ms self st)
  show ?case
  proof (cases "st (name self)")
    case (Some c)
    then show ?thesis by simp
  next
    case None
    let ?st1 = "st(name self \<mapsto> {#})"
    have s1: "?st1 (name self) \<noteq> None" by simp
    with "2.IH"[OF None] have ne: "count_loop n ms self (instances self) ?st1 \<noteq> Some (Inl e)"
      by blast
    show ?thesis
    proof
      assume a: "Module_count_instances (Suc n) ms self st = Some (Inl e)"
      with None ne obtain st' where l: "count_loop n ms self (instances self) ?st1 = Some (Inr st')"
        and n: "st' (name self) = None"
        by (auto split: option.splits sum.splits)
      from loop_frame(1)[OF l s1] n show False by simp
    qed
  qed
next
  case (3 n ms self st)
  then show ?case by simp
next
  case (4 n ms self i rest st)
  show ?case
  proof (intro impI notI)
    assume b: "st (name self) \<noteq> None"
      and a: "count_loop n ms self (i # rest) st = Some (Inl e)"
    from b obtain c where c: "st (name self) = Some c" by auto
    define st1 where "st1 = st(name self \<mapsto> add_mset (inst_type i) c)"
    have s1: "st1 (name self) = Some (add_mset (inst_type i) c)" by (simp add: st1_def)
    show False
    proof (cases "ms (inst_type i)")
      case None
      with a c have "count_loop n ms self rest st1 = Some (Inl e)"
        by (simp add: st1_def)
      with "4.IH"(1)[OF c st1_def None] s1 show False by simp
    next
      case (Some m)
      have ne: "Module_count_instances n ms m st1 \<noteq> Some (Inl e)"
        using "4.IH"(2)[OF c st1_def Some] .
      show False
      proof (cases "Module_count_instances n ms m st1")
        case None
        with a c Some show False by (simp add: st1_def[symmetric])
      next
        case (Some res)
        show False
        proof (cases res)
          case (Inl e')
          with a c \<open>ms (inst_type i) = Some m\<close> Some have "e' = e"
            by (simp add: st1_def[symmetric])
          with ne Some Inl show False by simp
        next
          case (Inr p)
          obtain r st2 where p: "p = (r, st2)" by (cases p)
          with Some Inr have r: "Module_count_instances n ms m st1 = Some (Inr (r, st2))" by simp
          have c2: "st2 (name self) = Some (add_mset (inst_type i) c)"
            using count_frame(2)[OF r s1] .
          define st3 where "st3 = st2(name self \<mapsto> add_mset (inst_type i) c + r)"
          from a c \<open>ms (inst_type i) = Some m\<close> r c2
          have l: "count_loop n ms self rest st3 = Some (Inl e)"
            by (simp add: st1_def[symmetric] st3_def)
          have "st3 (name self) \<noteq> None" by (simp add: st3_def)
          with "4.IH"(3)[OF c st1_def \<open>ms (inst_type i) = Some m\<close> r refl refl c2, folded st3_def] l
          show False by blast
        qed
      qed
    qed
  qed
qed

lemma uncached_mono:
  assumes "\<And>n x. st n = Some x \<Longrightarrow> st' n = Some x"
  shows "uncached ms st' \<subseteq> uncached ms st"
proof
  fix n assume "n \<in> uncached ms st'"
  then have a: "n \<in> name ` ran ms" "st' n = None" by (auto simp: uncached_def)
  have "st n = None"
  proof (cases "st n")
    case (Some x) with assms a show ?thesis by fastforce
  qed simp
  with a show "n \<in> uncached ms st" by (simp add: uncached_def)
qed

lemma finite_uncached: "finite (ran ms) \<Longrightarrow> finite (uncached ms st)"
  by (simp add: uncached_def)

lemma uncached_upd_subset: "uncached ms (st(k \<mapsto> v)) \<subseteq> uncached ms st"
  by (auto simp: uncached_def split: if_splits)

lemma enough_fuel_both:
  assumes fin: "finite (ran ms)"
  shows "(\<forall>m st. m \<in> ran ms \<longrightarrow> card (uncached ms st) < f \<longrightarrow>
            (\<exists>c st'. Module_count_instances f ms m st = Some (Inr (c, st')))) \<and>
         (\<forall>self is st. st (name self) \<noteq> None \<longrightarrow> card (uncached ms st) < f \<longrightarrow>
            (\<exists>st'. count_loop f ms self is st = Some (Inr st')))"
proof (induction f)
  case 0
  show ?case by simp
next
  case (Suc f)
  have T: "\<exists>c st'. Module_count_instances (Suc f) ms m st = Some (Inr (c, st'))"
    if m: "m \<in> ran ms" and cd: "card (uncached ms st) < Suc f" for m st
  proof (cases "st (name m)")
    case (Some c)
    then show ?thesis by simp
  next
    case None
    let ?st1 = "st(name m \<mapsto> {#})"
    from m None have mem: "name m \<in> uncached ms st" by (simp add: uncached_def)
    have "name m \<notin> uncached ms ?st1" by (simp add: uncached_def)
    with mem uncached_upd_subset[of ms st "name m" "{#}"]
    have "uncached ms ?st1 \<subset> uncached ms st" by blast
    then have "card (uncached ms ?st1) < card (uncached ms st)"
      by (rule psubset_card_mono[OF finite_uncached[OF fin]])
    with cd have "card (uncached ms ?st1) < f" by simp
    moreover have s1: "?st1 (name m) \<noteq> None" by simp
    ultimately obtain st' where l: "count_loop f ms m (instances m) ?st1 = Some (Inr st')"
      using Suc by blast
    from loop_frame(1)[OF l s1] obtain c where "st' (name m) = Some c" by auto
    with None l show ?thesis by simp
  qed
  have L: "\<exists>st'. count_loop (Suc f) ms self is st = Some (Inr st')"
    if "st (name self) \<noteq> None" "card (uncached ms st) < Suc f" for self "is" st
    using that
  proof (induction "is" arbitrary: st)
    case Nil
    show ?case by simp
  next
    case (Cons i rest)
    from Cons.prems obtain c where c: "st (name self) = Some c" by auto
    define st1 where "st1 = st(name self \<mapsto> add_mset (inst_type i) c)"
    have s1: "st1 (name self) = Some (add_mset (inst_type i) c)" by (simp add: st1_def)
    have "card (uncached ms st1) \<le> card (uncached ms st)"
      unfolding st1_def by (rule card_mono[OF finite_uncached[OF fin] uncached_upd_subset])
    with Cons.prems have cd1: "card (uncached ms st1) < Suc f" by simp
    show ?case
    proof (cases "ms (inst_type i)")
      case None
      from Cons.IH[of st1] s1 cd1 obtain st' where "count_loop (Suc f) ms self rest st1 = Some (Inr st')"
        by auto
      with c None show ?thesis by (simp add: st1_def)
    next
      case (Some m)
      then have "m \<in> ran ms" by (auto simp: ran_def)
      from T[OF this cd1] obtain r st2 where
        r: "Module_count_instances (Suc f) ms m st1 = Some (Inr (r, st2))" by blast
      have c2: "st2 (name self) = Some (add_mset (inst_type i) c)"
        using count_frame(2)[OF r s1] .
      define st3 where "st3 = st2(name self \<mapsto> add_mset (inst_type i) c + r)"
      have "uncached ms st2 \<subseteq> uncached ms st1"
        by (rule uncached_mono) (rule count_frame(2)[OF r])
      then have "uncached ms st3 \<subseteq> uncached ms st1"
        using uncached_upd_subset[of ms st2 "name self"] unfolding st3_def by blast
      then have "card (uncached ms st3) \<le> card (uncached ms st1)"
        by (rule card_mono[OF finite_uncached[OF fin]])
      with cd1 have cd3: "card (uncached ms st3) < Suc f" by simp
      have "st3 (name self) \<noteq> None" by (simp add: st3_def)
      from Cons.IH[OF this cd3] obtain st' where "count_loop (Suc f) ms self rest st3 = Some (Inr st')"
        by auto
      with c Some r c2 show ?thesis by (simp add: st1_def[symmetric] st3_def)
    qed
  qed
  from T L show ?case by blast
qed

lemma acyclic_below_Suc: "acyclic_below k ms m \<Longrightarrow> acyclic_below (Suc k) ms m"
proof (induction k arbitrary: m)
  case 0
  then show ?case by simp
next
  case (Suc k)
  have "list_all (\<lambda>i. case ms (inst_type i) of None \<Rightarrow> True | Some m' \<Rightarrow> acyclic_below (Suc k) ms m')
          (instances m)"
    unfolding list_all_iff
  proof
    fix i assume "i \<in> set (instances m)"
    with Suc.prems have "case ms (inst_type i) of None \<Rightarrow> True | Some m' \<Rightarrow> acyclic_below k ms m'"
      by (simp add: list_all_iff)
    then show "case ms (inst_type i) of None \<Rightarrow> True | Some m' \<Rightarrow> acyclic_below (Suc k) ms m'"
      using Suc.IH by (cases "ms (inst_type i)") (simp_all del: acyclic_below.simps)
  qed
  then show ?case by (simp del: acyclic_below.simps add: acyclic_below.simps(2)[of "Suc k"])
qed

lemma flattened_Suc: "acyclic_below k ms m \<Longrightarrow> flattened (Suc k) ms m = flattened k ms m"
proof (induction k arbitrary: m)
  case 0
  then show ?case by simp
next
  case (Suc k)
  have "(\<Sum>i\<leftarrow>instances m. {#inst_type i#} +
        (case ms (inst_type i) of None \<Rightarrow> {#} | Some m' \<Rightarrow> flattened (Suc k) ms m'))
      = (\<Sum>i\<leftarrow>instances m. {#inst_type i#} +
        (case ms (inst_type i) of None \<Rightarrow> {#} | Some m' \<Rightarrow> flattened k ms m'))"
  proof (rule arg_cong[where f = sum_list], rule map_cong[OF refl])
    fix i assume "i \<in> set (instances m)"
    with Suc.prems have "case ms (inst_type i) of None \<Rightarrow> True | Some m' \<Rightarrow> acyclic_below k ms m'"
      by (simp add: list_all_iff)
    then show "{#inst_type i#} + (case ms (inst_type i) of None \<Rightarrow> {#} | Some m' \<Rightarrow> flattened (Suc k) ms m')
       = {#inst_type i#} + (case ms (inst_type i) of None \<Rightarrow> {#} | Some m' \<Rightarrow> flattened k ms m')"
      using Suc.IH by (cases "ms (inst_type i)") (simp_all del: flattened.simps acyclic_below.simps)
  qed
  then show ?case by (simp del: flattened.simps(2) add: flattened.simps(2)[of "Suc k"] flattened.simps(2)[of k])
qed

lemma consistent_Suc_down: "consistent (Suc k) ms st \<Longrightarrow> consistent k ms st"
  unfolding consistent_def using acyclic_below_Suc flattened_Suc by metis

lemma consistent_upd:
  "consistent k ms st \<Longrightarrow> \<not> shallow k ms n \<Longrightarrow> consistent k ms (st(n \<mapsto> v))"
  by (auto simp: consistent_def shallow_def)

lemma shallow_Suc: "shallow k ms n \<Longrightarrow> shallow (Suc k) ms n"
  using acyclic_below_Suc by (auto simp: shallow_def)

lemma count_flattened:
  assumes key: "keyed ms"
  shows "m \<in> ran ms \<Longrightarrow> acyclic_below k ms m \<Longrightarrow> consistent k ms st \<Longrightarrow>
         Module_count_instances f ms m st = Some (Inr (c, st')) \<Longrightarrow>
         c = flattened k ms m \<and> consistent k ms st' \<and> (\<forall>n. \<not> shallow k ms n \<longrightarrow> st' n = st n)"
proof (induction k arbitrary: m st f c st')
  case 0
  then show ?case by simp
next
  case (Suc k)
  from key Suc.prems(1) have km: "ms (name m) = Some m"
    by (auto simp: keyed_def ran_def)
  show ?case
  proof (cases "acyclic_below k ms m")
    case True
    have c0: "consistent k ms st" using Suc.prems(3) by (rule consistent_Suc_down)
    from Suc.IH[OF Suc.prems(1) True c0 Suc.prems(4)]
    have r: "c = flattened k ms m" "consistent k ms st'" "\<And>n. \<not> shallow k ms n \<Longrightarrow> st' n = st n"
      by blast+
    have g1: "c = flattened (Suc k) ms m" using r(1) flattened_Suc[OF True] by simp
    have g2: "consistent (Suc k) ms st'"
      unfolding consistent_def
    proof (intro allI impI)
      fix n m' c'
      assume a: "ms n = Some m'" "acyclic_below (Suc k) ms m'" "st' n = Some c'"
      show "c' = flattened (Suc k) ms m'"
      proof (cases "acyclic_below k ms m'")
        case True
        with r(2) a have "c' = flattened k ms m'" by (auto simp: consistent_def)
        with flattened_Suc[OF True] show ?thesis by simp
      next
        case False
        with a(1) have "\<not> shallow k ms n" by (simp add: shallow_def)
        then have "st' n = st n" by (rule r(3))
        with Suc.prems(3) a show ?thesis by (auto simp: consistent_def)
      qed
    qed
    have g3: "\<forall>n. \<not> shallow (Suc k) ms n \<longrightarrow> st' n = st n"
      using r(3) shallow_Suc by blast
    from g1 g2 g3 show ?thesis by blast
  next
    case False
    with km have nsh: "\<not> shallow k ms (name m)" by (simp add: shallow_def)
    let ?child = "\<lambda>i. {#inst_type i#} +
        (case ms (inst_type i) of None \<Rightarrow> {#} | Some m' \<Rightarrow> flattened k ms m')"
    have loop: "st2 (name m) = Some (acc + (\<Sum>i\<leftarrow>is. ?child i)) \<and> consistent k ms st2 \<and>
          (\<forall>n. n \<noteq> name m \<longrightarrow> \<not> shallow k ms n \<longrightarrow> st2 n = st1 n)"
      if "list_all (\<lambda>i. case ms (inst_type i) of None \<Rightarrow> True | Some m' \<Rightarrow> acyclic_below k ms m') is"
         "st1 (name m) = Some acc" "consistent k ms st1"
         "count_loop g ms m is st1 = Some (Inr st2)"
      for "is" st1 acc st2 g
      using that
    proof (induction "is" arbitrary: st1 acc)
      case Nil
      then show ?case by simp
    next
      case (Cons i rest)
      define sa where "sa = st1(name m \<mapsto> add_mset (inst_type i) acc)"
      have sa1: "sa (name m) = Some (add_mset (inst_type i) acc)" by (simp add: sa_def)
      have csa: "consistent k ms sa" unfolding sa_def
        using Cons.prems(3) nsh by (rule consistent_upd)
      from Cons.prems(1) have rest: "list_all (\<lambda>i. case ms (inst_type i) of None \<Rightarrow> True
            | Some m' \<Rightarrow> acyclic_below k ms m') rest" by simp
      show ?case
      proof (cases "ms (inst_type i)")
        case None
        with Cons.prems(2,4) have l: "count_loop g ms m rest sa = Some (Inr st2)"
          by (simp add: sa_def)
        from Cons.IH[OF rest sa1 csa l]
        have "st2 (name m) = Some (add_mset (inst_type i) acc + (\<Sum>i\<leftarrow>rest. ?child i))"
          "consistent k ms st2" "\<And>n. n \<noteq> name m \<Longrightarrow> \<not> shallow k ms n \<Longrightarrow> st2 n = sa n"
          by blast+
        with None show ?thesis by (simp add: sa_def)
      next
        case (Some m')
        then have mr: "m' \<in> ran ms" by (auto simp: ran_def)
        from Cons.prems(1) Some have am: "acyclic_below k ms m'" by simp
        from Cons.prems(2,4) Some obtain r sb where
          r: "Module_count_instances g ms m' sa = Some (Inr (r, sb))"
          by (auto simp: sa_def Let_def split: option.splits sum.splits)
        from Suc.IH[OF mr am csa r]
        have ih: "r = flattened k ms m'" "consistent k ms sb" "\<And>n. \<not> shallow k ms n \<Longrightarrow> sb n = sa n"
          by blast+
        from ih(3)[OF nsh] sa1 have sb1: "sb (name m) = Some (add_mset (inst_type i) acc)" by simp
        define sc where "sc = sb(name m \<mapsto> add_mset (inst_type i) acc + r)"
        have sc1: "sc (name m) = Some (add_mset (inst_type i) acc + r)" by (simp add: sc_def)
        have csc: "consistent k ms sc" unfolding sc_def using ih(2) nsh by (rule consistent_upd)
        from Cons.prems(2,4) Some r sb1 have l: "count_loop g ms m rest sc = Some (Inr st2)"
          by (simp add: sa_def[symmetric] sc_def)
        from Cons.IH[OF rest sc1 csc l]
        have fin: "st2 (name m) = Some (add_mset (inst_type i) acc + r + (\<Sum>i\<leftarrow>rest. ?child i))"
          "consistent k ms st2" "\<And>n. n \<noteq> name m \<Longrightarrow> \<not> shallow k ms n \<Longrightarrow> st2 n = sc n"
          by blast+
        have "\<forall>n. n \<noteq> name m \<longrightarrow> \<not> shallow k ms n \<longrightarrow> st2 n = st1 n"
        proof (intro allI impI)
          fix n assume n: "n \<noteq> name m" "\<not> shallow k ms n"
          then have "st2 n = sc n" by (rule fin(3))
          also from n have "\<dots> = sb n" by (simp add: sc_def)
          also from n have "\<dots> = sa n" by (simp add: ih(3))
          also from n have "\<dots> = st1 n" by (simp add: sa_def)
          finally show "st2 n = st1 n" .
        qed
        with fin(1,2) Some ih(1) show ?thesis by simp
      qed
    qed
    obtain f' where f: "f = Suc f'"
      using Suc.prems(4) by (cases f) simp_all
    show ?thesis
    proof (cases "st (name m)")
      case (Some c0)
      with Suc.prems(4) f have e: "c = c0" "st' = st" by simp_all
      from Suc.prems(3) km Suc.prems(2) Some have "c0 = flattened (Suc k) ms m"
        unfolding consistent_def by blast
      with e Suc.prems(3) show ?thesis by simp
    next
      case None
      define s0 where "s0 = st(name m \<mapsto> {#})"
      have s01: "s0 (name m) = Some {#}" by (simp add: s0_def)
      have cs0: "consistent k ms s0" unfolding s0_def
        using consistent_Suc_down[OF Suc.prems(3)] nsh by (rule consistent_upd)
      from Suc.prems(4) f None have l: "count_loop f' ms m (instances m) s0 = Some (Inr st')"
        and c: "st' (name m) = Some c"
        by (auto simp: s0_def split: option.splits sum.splits)
      from Suc.prems(2) have ch: "list_all (\<lambda>i. case ms (inst_type i) of None \<Rightarrow> True
            | Some m' \<Rightarrow> acyclic_below k ms m') (instances m)" by simp
      from loop[OF ch s01 cs0 l]
      have fin: "st' (name m) = Some ({#} + (\<Sum>i\<leftarrow>instances m. ?child i))"
        "consistent k ms st'" "\<And>n. n \<noteq> name m \<Longrightarrow> \<not> shallow k ms n \<Longrightarrow> st' n = s0 n"
        by blast+
      from fin(1) c have g1: "c = flattened (Suc k) ms m" by simp
      have out: "st' n = st n" if "n \<noteq> name m" "\<not> shallow k ms n" for n
        using fin(3)[OF that] that by (simp add: s0_def)
      have g2: "consistent (Suc k) ms st'"
        unfolding consistent_def
      proof (intro allI impI)
        fix n m' c'
        assume a: "ms n = Some m'" "acyclic_below (Suc k) ms m'" "st' n = Some c'"
        show "c' = flattened (Suc k) ms m'"
        proof (cases "n = name m")
          case True
          with a km c g1 show ?thesis by simp
        next
          case nm: False
          show ?thesis
          proof (cases "acyclic_below k ms m'")
            case True
            with fin(2) a have "c' = flattened k ms m'" by (auto simp: consistent_def)
            with flattened_Suc[OF True] show ?thesis by simp
          next
            case False
            with a(1) have "\<not> shallow k ms n" by (simp add: shallow_def)
            with nm have "st' n = st n" by (rule out)
            with Suc.prems(3) a show ?thesis by (auto simp: consistent_def)
          qed
        qed
      qed
      have g3: "\<forall>n. \<not> shallow (Suc k) ms n \<longrightarrow> st' n = st n"
      proof (intro allI impI)
        fix n assume n: "\<not> shallow (Suc k) ms n"
        with km Suc.prems(2) have "n \<noteq> name m" by (auto simp: shallow_def)
        moreover from n shallow_Suc have "\<not> shallow k ms n" by blast
        ultimately show "st' n = st n" by (rule out)
      qed
      from g1 g2 g3 show ?thesis by blast
    qed
  qed
qed

subsection \<open>The dictionary of a design\<close>

lemma Design_snoc: "modules (Design (xs @ [x])) = (modules (Design xs))(name x \<mapsto> x)"
  by (simp add: Design_def)

lemma Design_lookup:
  "modules (Design mods) n = Some m \<Longrightarrow> name m = n \<and> m \<in> set mods"
proof (induction mods arbitrary: m rule: rev_induct)
  case Nil
  then show ?case by (simp add: Design_def)
next
  case (snoc x xs)
  then show ?case by (auto simp: Design_snoc split: if_splits)
qed

lemma Design_keyed: "keyed (modules (Design mods))"
  using Design_lookup by (auto simp: keyed_def)

lemma Design_ran: "ran (modules (Design mods)) \<subseteq> set mods"
  using Design_lookup by (auto simp: ran_def)

lemma Design_finite: "finite (ran (modules (Design mods)))"
  using Design_ran finite_subset by blast

lemma Design_uncached: "card (uncached (modules (Design mods)) st) \<le> length mods"
proof -
  have "uncached (modules (Design mods)) st \<subseteq> name ` set mods"
    using Design_ran by (auto simp: uncached_def)
  then have "card (uncached (modules (Design mods)) st) \<le> card (name ` set mods)"
    by (simp add: card_mono)
  also have "\<dots> \<le> card (set mods)" by (simp add: card_image_le)
  also have "\<dots> \<le> length mods" by (rule card_length)
  finally show ?thesis .
qed

lemma Module_returns:
  assumes "modules (Design mods) n = Some m" "length mods < fuel"
  shows "\<exists>c st'. Module_count_instances fuel (modules (Design mods)) m st = Some (Inr (c, st'))"
proof -
  from assms(1) have "m \<in> ran (modules (Design mods))" by (auto simp: ran_def)
  moreover from Design_uncached[of mods st] assms(2)
  have "card (uncached (modules (Design mods)) st) < fuel" by simp
  ultimately show ?thesis
    using enough_fuel_both[OF Design_finite, of mods fuel] by blast
qed

subsection \<open>Acyclic hierarchies have a finite depth\<close>

lemma acyclic_below_step:
  assumes "acyclic_below (Suc k) ms a" "(a, b) \<in> instantiates ms"
  shows "acyclic_below k ms b"
  using assms by (auto simp: instantiates_def list_all_iff split: option.splits)

lemma acyclic_below_le: "acyclic_below k ms m \<Longrightarrow> k \<le> k' \<Longrightarrow> acyclic_below k' ms m"
  by (induction k' ) (auto simp: le_Suc_eq dest: acyclic_below_Suc simp del: acyclic_below.simps)

lemma acyclic_below_rtrancl:
  assumes "(a, b) \<in> (instantiates ms)\<^sup>*" "acyclic_below k ms a"
  shows "acyclic_below k ms b"
  using assms
proof (induction rule: rtrancl_induct)
  case base
  then show ?case .
next
  case (step y z)
  then have "acyclic_below k ms y" by simp
  then obtain j where k: "k = Suc j" by (cases k) simp_all
  with \<open>acyclic_below k ms y\<close> step.hyps(2) have "acyclic_below j ms z"
    using acyclic_below_step by blast
  then show ?case unfolding k by (rule acyclic_below_Suc)
qed

lemma acyclic_below_trancl:
  assumes "(a, b) \<in> (instantiates ms)\<^sup>+" "acyclic_below (Suc k) ms a"
  shows "acyclic_below k ms b"
proof -
  from assms(1) obtain c where "(a, c) \<in> instantiates ms" "(c, b) \<in> (instantiates ms)\<^sup>*"
    by (auto dest: tranclD)
  with assms(2) show ?thesis
    using acyclic_below_step acyclic_below_rtrancl by blast
qed

lemma acyclic_below_no_loop: "acyclic_below k ms a \<Longrightarrow> (a, a) \<notin> (instantiates ms)\<^sup>+"
proof (induction k)
  case 0
  then show ?case by simp
next
  case (Suc k)
  show ?case
  proof
    assume l: "(a, a) \<in> (instantiates ms)\<^sup>+"
    from acyclic_below_trancl[OF l Suc.prems] Suc.IH l show False by blast
  qed
qed

lemma acyclic_below_from: "acyclic_below k ms m \<Longrightarrow> acyclic_from ms m"
  unfolding acyclic_from_def
  using acyclic_below_rtrancl acyclic_below_no_loop by blast

lemma children_bound:
  assumes "\<forall>i\<in>set is. \<forall>b. ms (inst_type i) = Some b \<longrightarrow> (\<exists>k. acyclic_below k ms b)"
  shows "\<exists>K. list_all (\<lambda>i. case ms (inst_type i) of None \<Rightarrow> True | Some b \<Rightarrow> acyclic_below K ms b) is"
  using assms
proof (induction "is")
  case Nil
  show ?case by simp
next
  case (Cons i rest)
  then obtain K where K: "list_all (\<lambda>i. case ms (inst_type i) of None \<Rightarrow> True
      | Some b \<Rightarrow> acyclic_below K ms b) rest" by auto
  show ?case
  proof (cases "ms (inst_type i)")
    case None
    with K show ?thesis by auto
  next
    case (Some b)
    with Cons.prems obtain k where k: "acyclic_below k ms b" by auto
    have "list_all (\<lambda>i. case ms (inst_type i) of None \<Rightarrow> True
      | Some b \<Rightarrow> acyclic_below (max k K) ms b) rest"
      using K unfolding list_all_iff
      by (auto split: option.splits intro: acyclic_below_le[of K])
    moreover have "acyclic_below (max k K) ms b"
      using k by (rule acyclic_below_le) simp
    ultimately show ?thesis using Some by auto
  qed
qed

lemma acyclic_from_below:
  assumes fin: "finite (ran ms)" and ac: "acyclic_from ms m"
  shows "\<exists>k. acyclic_below k ms m"
proof -
  define R where "R = {m'. (m, m') \<in> (instantiates ms)\<^sup>*}"
  define r where "r = {(a, b). (a, b) \<in> instantiates ms \<and> a \<in> R}"
  have sub: "r \<subseteq> instantiates ms" by (auto simp: r_def)
  have ran: "b \<in> ran ms" if "(a, b) \<in> instantiates ms" for a b
    using that by (auto simp: instantiates_def ran_def)
  have "R \<subseteq> insert m (ran ms)"
  proof
    fix x assume "x \<in> R"
    then have "(m, x) \<in> (instantiates ms)\<^sup>*" by (simp add: R_def)
    then show "x \<in> insert m (ran ms)"
      by (cases rule: rtranclE) (auto dest: ran)
  qed
  then have finR: "finite R" using fin by (meson finite_insert finite_subset)
  have "r \<subseteq> R \<times> ran ms" by (auto simp: r_def dest: ran)
  then have finr: "finite r" using finR fin by (meson finite_SigmaI finite_subset)
  have "acyclic r"
    unfolding acyclic_def
  proof (intro allI notI)
    fix a assume l: "(a, a) \<in> r\<^sup>+"
    then obtain c where "(a, c) \<in> r" by (auto dest: tranclD)
    then have "a \<in> R" by (simp add: r_def)
    moreover from l sub have "(a, a) \<in> (instantiates ms)\<^sup>+" by (rule trancl_mono)
    ultimately show False using ac by (auto simp: acyclic_from_def R_def)
  qed
  with finr have "wf (r\<inverse>)" by (rule finite_acyclic_wf_converse)
  then have "a \<in> R \<longrightarrow> (\<exists>k. acyclic_below k ms a)" for a
  proof (induction a rule: wf_induct_rule)
    case (less a)
    show ?case
    proof
      assume a: "a \<in> R"
      have "\<forall>i\<in>set (instances a). \<forall>b. ms (inst_type i) = Some b \<longrightarrow> (\<exists>k. acyclic_below k ms b)"
      proof (intro ballI allI impI)
        fix i b assume i: "i \<in> set (instances a)" "ms (inst_type i) = Some b"
        then have ab: "(a, b) \<in> instantiates ms" by (auto simp: instantiates_def)
        with a have "(a, b) \<in> r" by (simp add: r_def)
        moreover from a ab have "b \<in> R" by (auto simp: R_def intro: rtrancl_into_rtrancl)
        ultimately show "\<exists>k. acyclic_below k ms b" using less by blast
      qed
      from children_bound[OF this] obtain K where
        "list_all (\<lambda>i. case ms (inst_type i) of None \<Rightarrow> True | Some b \<Rightarrow> acyclic_below K ms b)
          (instances a)" ..
      then have "acyclic_below (Suc K) ms a" by simp
      then show "\<exists>k. acyclic_below k ms a" ..
    qed
  qed
  moreover have "m \<in> R" by (simp add: R_def)
  ultimately show ?thesis by blast
qed

subsection \<open>The counters that are set are right\<close>

lemma flattened_le:
  "acyclic_below k ms m \<Longrightarrow> k \<le> k' \<Longrightarrow> flattened k' ms m = flattened k ms m"
proof (induction k')
  case 0
  then show ?case by simp
next
  case (Suc k')
  show ?case
  proof (cases "k = Suc k'")
    case True
    then show ?thesis by simp
  next
    case False
    with Suc.prems have le: "k \<le> k'" by simp
    from acyclic_below_le[OF Suc.prems(1) le] have "flattened (Suc k') ms m = flattened k' ms m"
      by (rule flattened_Suc)
    with Suc.IH[OF Suc.prems(1) le] show ?thesis by simp
  qed
qed

lemma flattened_indep:
  assumes "acyclic_below j ms m" "acyclic_below k ms m"
  shows "flattened j ms m = flattened k ms m"
proof -
  have "flattened (max j k) ms m = flattened j ms m" using assms(1) by (rule flattened_le) simp
  moreover have "flattened (max j k) ms m = flattened k ms m" using assms(2) by (rule flattened_le) simp
  ultimately show ?thesis by simp
qed

lemma shallow_call_consistent:
  assumes key: "keyed ms" and m: "m \<in> ran ms" and ac: "acyclic_below k ms m"
    and c: "all_consistent ms st"
    and r: "Module_count_instances f ms m st = Some (Inr (c', st'))"
  shows "c' = flattened k ms m" and "all_consistent ms st'"
proof -
  from c have "consistent k ms st" by (simp add: all_consistent_def)
  from count_flattened[OF key m ac this r]
  have res: "c' = flattened k ms m" "consistent k ms st'" "\<And>n. \<not> shallow k ms n \<Longrightarrow> st' n = st n"
    by blast+
  show "c' = flattened k ms m" by (rule res(1))
  show "all_consistent ms st'"
    unfolding all_consistent_def consistent_def
  proof (intro allI impI)
    fix j n m2 c2
    assume a: "ms n = Some m2" "acyclic_below j ms m2" "st' n = Some c2"
    show "c2 = flattened j ms m2"
    proof (cases "acyclic_below k ms m2")
      case True
      with res(2) a have "c2 = flattened k ms m2" by (auto simp: consistent_def)
      with flattened_indep[OF a(2) True] show ?thesis by simp
    next
      case False
      with a(1) have "\<not> shallow k ms n" by (simp add: shallow_def)
      then have "st' n = st n" by (rule res(3))
      with c a show ?thesis by (auto simp: all_consistent_def consistent_def)
    qed
  qed
qed

lemma all_consistent_upd:
  assumes "all_consistent ms st" "\<forall>k. \<not> shallow k ms n"
  shows "all_consistent ms (st(n \<mapsto> v))"
  using assms consistent_upd unfolding all_consistent_def by blast

lemma any_call_consistent:
  "keyed ms \<longrightarrow> m \<in> ran ms \<longrightarrow> all_consistent ms st \<longrightarrow>
     (\<forall>c st'. Module_count_instances f ms m st = Some (Inr (c, st')) \<longrightarrow> all_consistent ms st')"
  "keyed ms \<longrightarrow> self \<in> ran ms \<longrightarrow> (\<forall>k. \<not> acyclic_below k ms self) \<longrightarrow> all_consistent ms st \<longrightarrow>
     (\<forall>st'. count_loop f ms self is st = Some (Inr st') \<longrightarrow> all_consistent ms st')"
proof (induction f ms m st and f ms self "is" st rule: Module_count_instances_count_loop.induct)
  case (1 ms self st)
  show ?case by simp
next
  case (2 n ms self st)
  show ?case
  proof (intro impI allI)
    fix c st'
    assume key: "keyed ms" and m: "self \<in> ran ms" and c: "all_consistent ms st"
      and r: "Module_count_instances (Suc n) ms self st = Some (Inr (c, st'))"
    show "all_consistent ms st'"
    proof (cases "\<exists>k. acyclic_below k ms self")
      case True
      then obtain k where "acyclic_below k ms self" ..
      from shallow_call_consistent(2)[OF key m this c r] show ?thesis .
    next
      case False
      from key m have km: "ms (name self) = Some self" by (auto simp: keyed_def ran_def)
      with False have ns: "\<forall>k. \<not> shallow k ms (name self)" by (simp add: shallow_def)
      show ?thesis
      proof (cases "st (name self)")
        case (Some c0)
        with r c show ?thesis by simp
      next
        case None
        let ?st1 = "st(name self \<mapsto> {#})"
        from r None have l: "count_loop n ms self (instances self) ?st1 = Some (Inr st')"
          by (auto split: option.splits sum.splits)
        have c1: "all_consistent ms ?st1" using c ns by (rule all_consistent_upd)
        from "2.IH"[OF None] key m False c1 l show ?thesis by blast
      qed
    qed
  qed
next
  case (3 n ms self st)
  show ?case by simp
next
  case (4 n ms self i rest st)
  show ?case
  proof (intro impI allI)
    fix st'
    assume key: "keyed ms" and m: "self \<in> ran ms" and nsh: "\<forall>k. \<not> acyclic_below k ms self"
      and c: "all_consistent ms st"
      and r: "count_loop n ms self (i # rest) st = Some (Inr st')"
    from key m have km: "ms (name self) = Some self" by (auto simp: keyed_def ran_def)
    with nsh have ns: "\<forall>k. \<not> shallow k ms (name self)" by (simp add: shallow_def)
    from r obtain c0 where c0: "st (name self) = Some c0"
      by (cases "st (name self)") simp_all
    define st1 where "st1 = st(name self \<mapsto> add_mset (inst_type i) c0)"
    have c1: "all_consistent ms st1" unfolding st1_def using c ns by (rule all_consistent_upd)
    show "all_consistent ms st'"
    proof (cases "ms (inst_type i)")
      case None
      with r c0 have l: "count_loop n ms self rest st1 = Some (Inr st')"
        by (simp add: st1_def)
      from "4.IH"(1)[OF c0 st1_def None] key m nsh c1 l show ?thesis by blast
    next
      case (Some m')
      then have mr: "m' \<in> ran ms" by (auto simp: ran_def)
      from r c0 Some obtain x st2 where
        x: "Module_count_instances n ms m' st1 = Some (Inr (x, st2))"
        by (auto simp: st1_def Let_def split: option.splits sum.splits)
      from "4.IH"(2)[OF c0 st1_def Some] key mr c1 x have c2: "all_consistent ms st2" by blast
      have s1: "st1 (name self) = Some (add_mset (inst_type i) c0)" by (simp add: st1_def)
      have s2: "st2 (name self) = Some (add_mset (inst_type i) c0)"
        using count_frame(2)[OF x s1] .
      define st3 where "st3 = st2(name self \<mapsto> add_mset (inst_type i) c0 + x)"
      have c3: "all_consistent ms st3" unfolding st3_def using c2 ns by (rule all_consistent_upd)
      from r c0 Some x s2 have l: "count_loop n ms self rest st3 = Some (Inr st')"
        by (simp add: st1_def[symmetric] st3_def)
      from "4.IH"(3)[OF c0 st1_def Some x refl refl s2, folded st3_def] key m nsh c3 l
      show ?thesis by blast
    qed
  qed
qed

lemma reachable_consistent:
  "counters_reachable (Design mods) st \<Longrightarrow> all_consistent (modules (Design mods)) st"
proof (induction rule: counters_reachable.induct)
  case fresh
  show ?case by (simp add: all_consistent_def consistent_def)
next
  case (counted st fuel n c st')
  from counted.hyps(2) obtain m where m: "modules (Design mods) n = Some m"
    and r: "Module_count_instances fuel (modules (Design mods)) m st = Some (Inr (c, st'))"
    by (auto simp: Design_count_instances_def split: option.splits)
  from m have "m \<in> ran (modules (Design mods))" by (auto simp: ran_def)
  with any_call_consistent(1)[of "modules (Design mods)" m st fuel] Design_keyed[of mods] counted.IH r
  show ?case by blast
qed

subsection \<open>The claims about counting\<close>

text \<open>The equation of the count, for a hierarchy of depth below \<open>k\<close>.\<close>

lemma flattening_below:
  assumes "counters_reachable (Design mods) st"
    and "modules (Design mods) n = Some m"
    and "acyclic_below k (modules (Design mods)) m"
    and "length mods < fuel"
  shows "\<exists>c st' g.
     Design_count_instances fuel (Design mods) n st = Some (Inr (c, st')) \<and>
     (\<forall>i\<in>set (instances m). modules (Design mods) (inst_type i) \<noteq> None \<longrightarrow>
        (\<exists>st''. Design_count_instances fuel (Design mods) (inst_type i) st =
           Some (Inr (g (inst_type i), st'')))) \<and>
     c = (\<Sum>i\<leftarrow>instances m. {#inst_type i#} +
            (case modules (Design mods) (inst_type i) of None \<Rightarrow> {#} | Some m' \<Rightarrow> g (inst_type i))) \<and>
     (instances m = [] \<longrightarrow> c = {#})"
proof -
  let ?ms = "modules (Design mods)"
  have cons: "all_consistent ?ms st" using assms(1) by (rule reachable_consistent)
  have run: "\<exists>st'. Module_count_instances fuel ?ms m' st = Some (Inr (flattened j ?ms m', st'))"
    if "?ms n' = Some m'" "acyclic_below j ?ms m'" for n' m' j
  proof -
    from Module_returns[OF that(1) assms(4)] obtain c st' where
      r: "Module_count_instances fuel ?ms m' st = Some (Inr (c, st'))" by blast
    from that(1) have "m' \<in> ran ?ms" by (auto simp: ran_def)
    from shallow_call_consistent(1)[OF Design_keyed this that(2) cons r]
    have "c = flattened j ?ms m'" .
    with r show ?thesis by blast
  qed
  obtain k' where k: "k = Suc k'" using assms(3) by (cases k) simp_all
  define g where "g t = (case ?ms t of None \<Rightarrow> {#} | Some m' \<Rightarrow> flattened k' ?ms m')" for t
  from run[OF assms(2,3)] obtain st' where
    top: "Module_count_instances fuel ?ms m st = Some (Inr (flattened k ?ms m, st'))" by blast
  have g1: "Design_count_instances fuel (Design mods) n st = Some (Inr (flattened k ?ms m, st'))"
    using top assms(2) by (simp add: Design_count_instances_def)
  have g2: "\<forall>i\<in>set (instances m). ?ms (inst_type i) \<noteq> None \<longrightarrow>
        (\<exists>st''. Design_count_instances fuel (Design mods) (inst_type i) st =
           Some (Inr (g (inst_type i), st'')))"
  proof (intro ballI impI)
    fix i assume i: "i \<in> set (instances m)" "?ms (inst_type i) \<noteq> None"
    then obtain m' where m': "?ms (inst_type i) = Some m'" by auto
    from assms(3) i(1) m' have "acyclic_below k' ?ms m'"
      by (auto simp: k list_all_iff)
    from run[OF m' this] m' show "\<exists>st''. Design_count_instances fuel (Design mods) (inst_type i) st =
           Some (Inr (g (inst_type i), st''))"
      by (simp add: Design_count_instances_def g_def)
  qed
  have g3: "flattened k ?ms m = (\<Sum>i\<leftarrow>instances m. {#inst_type i#} +
            (case ?ms (inst_type i) of None \<Rightarrow> {#} | Some m' \<Rightarrow> g (inst_type i)))"
    unfolding k flattened.simps
    by (rule arg_cong[where f = sum_list], rule map_cong[OF refl]) (simp add: g_def split: option.splits)
  have g4: "instances m = [] \<longrightarrow> flattened k ?ms m = {#}" by (simp add: k)
  from g1 g2 g3 g4 show ?thesis by blast
qed

text \<open>
  C1 (as amended). For every Design, every state of the counters that calls of
  \<open>count_instances\<close> can have left, and every module \<open>m\<close> of the design below which
  the hierarchy is acyclic, \<open>count_instances\<close> returns, within a recursion depth of the
  number of modules plus one, the multiset that is the sum over the direct instances of
  \<open>m\<close> of one at the instance's type plus, for each instance whose type is a module of
  the design, the multiset \<open>g\<close> that \<open>count_instances\<close> returns for that module; a
  module without instances yields the empty multiset.
\<close>

theorem count_instances_flattening:
  assumes "counters_reachable (Design mods) st"
    and "modules (Design mods) n = Some m"
    and "acyclic_from (modules (Design mods)) m"
    and "length mods < fuel"
  shows "\<exists>c st' g.
     Design_count_instances fuel (Design mods) n st = Some (Inr (c, st')) \<and>
     (\<forall>i\<in>set (instances m). modules (Design mods) (inst_type i) \<noteq> None \<longrightarrow>
        (\<exists>st''. Design_count_instances fuel (Design mods) (inst_type i) st =
           Some (Inr (g (inst_type i), st'')))) \<and>
     c = (\<Sum>i\<leftarrow>instances m. {#inst_type i#} +
            (case modules (Design mods) (inst_type i) of None \<Rightarrow> {#} | Some m' \<Rightarrow> g (inst_type i))) \<and>
     (instances m = [] \<longrightarrow> c = {#})"
proof -
  from acyclic_from_below[OF Design_finite assms(3)] obtain k where
    "acyclic_below k (modules (Design mods)) m" ..
  with assms(1,2) show ?thesis using assms(4) by (rule flattening_below)
qed

text \<open>The scenario of the specification: \<open>TopCell\<close> counts to one \<open>AND2\<close> and one
  \<open>cellB\<close>.\<close>

theorem count_instances_flattening_witness:
  "\<exists>st'. Design_count_instances 3 (Design [cellB, TopCell]) (Str ''TopCell'') Map.empty =
      Some (Inr ({#Str ''AND2'', Str ''cellB''#}, st'))"
proof -
  have h1: "modules (Design [cellB, TopCell]) (Str ''TopCell'') = Some TopCell"
    by (simp add: Design_def cellB_def TopCell_def)
  have "acyclic_below 2 (modules (Design [cellB, TopCell])) TopCell"
    by (simp add: Design_def cellB_def TopCell_def eval_nat_numeral)
  then have h2: "acyclic_from (modules (Design [cellB, TopCell])) TopCell"
    by (rule acyclic_below_from)
  have h3: "length [cellB, TopCell] < 3" by simp
  from count_instances_flattening[OF counters_reachable.fresh h1 h2 h3] obtain c st' g where
    r: "Design_count_instances 3 (Design [cellB, TopCell]) (Str ''TopCell'') Map.empty = Some (Inr (c, st'))"
    and ch: "\<forall>i\<in>set (instances TopCell). modules (Design [cellB, TopCell]) (inst_type i) \<noteq> None \<longrightarrow>
        (\<exists>st''. Design_count_instances 3 (Design [cellB, TopCell]) (inst_type i) Map.empty =
           Some (Inr (g (inst_type i), st'')))"
    and c: "c = (\<Sum>i\<leftarrow>instances TopCell. {#inst_type i#} +
            (case modules (Design [cellB, TopCell]) (inst_type i) of None \<Rightarrow> {#} | Some m' \<Rightarrow> g (inst_type i)))"
    by blast
  from ch have "g (Str ''cellB'') = {#}"
    by (simp add: Design_count_instances_def Design_def cellB_def TopCell_def eval_nat_numeral)
  with c have "c = {#Str ''AND2'', Str ''cellB''#}"
    by (simp add: Design_def cellB_def TopCell_def)
  with r show ?thesis by blast
qed

text \<open>
  C1 as stated fails for a design with a cycle. For the module that instantiates itself
  the call returns two occurrences of \<open>A\<close>: the recursive call finds the counter
  already set and returns it as it is. The claimed sum, with this multiset for the
  instantiated module \<open>A\<close>, has three.
\<close>

theorem count_instances_flattening_counterexample:
  "(selfcell, selfcell) \<in> instantiates (modules (Design [selfcell])) \<and>
   Design_count_instances 2 (Design [selfcell]) (Str ''A'') Map.empty =
     Some (Inr ({#Str ''A'', Str ''A''#}, [Str ''A'' \<mapsto> {#Str ''A'', Str ''A''#}])) \<and>
   {#Str ''A'', Str ''A''#} \<noteq>
     (\<Sum>i\<leftarrow>instances selfcell. {#inst_type i#} +
        (case modules (Design [selfcell]) (inst_type i) of None \<Rightarrow> {#}
         | Some m' \<Rightarrow> {#Str ''A'', Str ''A''#}))"
  by (simp add: Design_count_instances_def Design_def selfcell_def instantiates_def
      eval_nat_numeral)

text \<open>
  C2 (as amended). For every Design, cyclic or not, and every state of the counters,
  \<open>count_instances\<close> returns within a recursion depth of the number of modules plus
  one: with \<open>KeyError\<close> for an unknown name, with a multiset otherwise. The counter of
  a module is set before its instances are visited, so a module that is reached again
  is not entered again.
\<close>

theorem count_instances_terminates:
  assumes "length mods < fuel"
  shows "(modules (Design mods) n = None \<longrightarrow>
            Design_count_instances fuel (Design mods) n st = Some (Inl (KeyError n))) \<and>
         (modules (Design mods) n \<noteq> None \<longrightarrow>
            (\<exists>c st'. Design_count_instances fuel (Design mods) n st = Some (Inr (c, st'))))"
proof (cases "modules (Design mods) n")
  case None
  then show ?thesis by (simp add: Design_count_instances_def)
next
  case (Some m)
  from Module_returns[OF Some assms] Some show ?thesis
    by (simp add: Design_count_instances_def)
qed

theorem count_instances_terminates_witness:
  "\<exists>c st'. Design_count_instances 3 (Design [loop_a, loop_b]) (Str ''A'') Map.empty = Some (Inr (c, st'))"
proof -
  have h: "length [loop_a, loop_b] < 3" by simp
  have "modules (Design [loop_a, loop_b]) (Str ''A'') \<noteq> None"
    by (simp add: Design_def loop_a_def loop_b_def)
  with count_instances_terminates[OF h, of "Str ''A''" Map.empty] show ?thesis by blast
qed

text \<open>
  C2 as stated fails: in the design of two modules that instantiate each other, counting
  \<open>A\<close>, a module on the cycle, returns.
\<close>

theorem count_instances_terminates_counterexample:
  "(loop_a, loop_a) \<in> (instantiates (modules (Design [loop_a, loop_b])))\<^sup>+ \<and>
   modules (Design [loop_a, loop_b]) (Str ''A'') = Some loop_a \<and>
   Design_count_instances 3 (Design [loop_a, loop_b]) (Str ''A'') Map.empty =
     Some (Inr ({#Str ''B'', Str ''A'', Str ''B''#},
       [Str ''B'' \<mapsto> {#Str ''B'', Str ''A''#}, Str ''A'' \<mapsto> {#Str ''B'', Str ''A'', Str ''B''#}]))"
proof -
  have "(loop_a, loop_b) \<in> instantiates (modules (Design [loop_a, loop_b]))"
    "(loop_b, loop_a) \<in> instantiates (modules (Design [loop_a, loop_b]))"
    by (simp_all add: instantiates_def Design_def loop_a_def loop_b_def)
  then have "(loop_a, loop_a) \<in> (instantiates (modules (Design [loop_a, loop_b])))\<^sup>+"
    by (rule trancl_into_trancl[OF r_into_trancl])
  moreover have "modules (Design [loop_a, loop_b]) (Str ''A'') = Some loop_a"
    by (simp add: Design_def loop_a_def loop_b_def)
  moreover have "Design_count_instances 3 (Design [loop_a, loop_b]) (Str ''A'') Map.empty =
     Some (Inr ({#Str ''B'', Str ''A'', Str ''B''#},
       [Str ''B'' \<mapsto> {#Str ''B'', Str ''A''#}, Str ''A'' \<mapsto> {#Str ''B'', Str ''A'', Str ''B''#}]))"
    by (simp add: Design_count_instances_def Design_def loop_a_def loop_b_def eval_nat_numeral)
  ultimately show ?thesis by blast
qed



text \<open>
  C8. \<open>count_instances\<close> of a Design on a module name that is absent from its
  mapping raises an error (the \<open>KeyError\<close> of the dictionary lookup); no multiset is
  returned.
\<close>

theorem count_instances_unknown_module:
  assumes "modules d n = None"
  shows "Design_count_instances fuel d n st = Some (Inl (KeyError n))"
  using assms by (simp add: Design_count_instances_def)

theorem count_instances_unknown_module_witness:
  "Design_count_instances 3 (Design [cellB, TopCell]) (Str ''cellC'') Map.empty =
     Some (Inl (KeyError (Str ''cellC'')))"
proof -
  have h: "modules (Design [cellB, TopCell]) (Str ''cellC'') = None"
    by (simp add: Design_def cellB_def TopCell_def)
  from count_instances_unknown_module[OF h] show ?thesis .
qed

section \<open>Properties of the scanner\<close>

lemma gen_tokens_feed [simp]: "gen_tokens (feed ts g) = ts @ gen_tokens g"
  by (induction ts) simp_all

lemma gen_end_feed [simp]: "gen_end (feed ts g) = gen_end g"
  by (induction ts) simp_all

lemma feed_append [simp]: "feed (ts @ us) g = feed ts (feed us g)"
  by (induction ts) simp_all

lemma scan_step_ok:
  assumes "regex_match s = Some (kind, v, rest)" "kind \<noteq> ''MISMATCH''"
  shows "scan_from pos line start s =
     feed (emit kind v line (pos - start + 1))
       (scan_from (pos + int (length v))
          (if breaks_line kind then line + 1 else line)
          (if breaks_line kind then pos + int (length v) else start) rest)"
  using assms
  by (subst scan_from.simps) (simp add: emit_def breaks_line_def Let_def)

lemma scan_step_mismatch:
  assumes "regex_match s = Some (''MISMATCH'', v, rest)"
  shows "scan_from pos line start s = Raise (RuntimeError_unexpected v (pos - start + 1) line)"
  using assms by (subst scan_from.simps) (simp add: Let_def)

lemma regex_match_None: "regex_match s = None \<longleftrightarrow> s = []"
  by (auto simp: regex_match_def split: list.splits option.splits)

lemma takeWhile_upto: "a \<notin> set b \<Longrightarrow> takeWhile (\<lambda>x. x \<noteq> a) (b @ a # r) = b"
  by (induction b) auto

lemma dropWhile_upto: "a \<notin> set b \<Longrightarrow> dropWhile (\<lambda>x. x \<noteq> a) (b @ a # r) = a # r"
  by (induction b) auto

lemma match_comment_Some:
  "match_comment s = Some (v, rest) \<longleftrightarrow>
     (\<exists>b. v = ''//'' @ b @ [newline] \<and> newline \<notin> set b \<and> s = v @ rest)"
proof
  assume "match_comment s = Some (v, rest)"
  then obtain r where s: "s = CHR ''/'' # CHR ''/'' # r" and n: "newline \<in> set r"
    and v: "v = CHR ''/'' # CHR ''/'' # takeWhile (\<lambda>x. x \<noteq> newline) r @ [newline]"
    and rest: "rest = tl (dropWhile (\<lambda>x. x \<noteq> newline) r)"
    by (auto simp: match_comment_def split: list.splits if_splits)
  from n have "dropWhile (\<lambda>x. x \<noteq> newline) r \<noteq> []" by simp
  moreover from this have "hd (dropWhile (\<lambda>x. x \<noteq> newline) r) = newline"
    using hd_dropWhile[of "\<lambda>x. x \<noteq> newline" r] by simp
  ultimately have "dropWhile (\<lambda>x. x \<noteq> newline) r = newline # rest"
    using rest by (cases "dropWhile (\<lambda>x. x \<noteq> newline) r") simp_all
  then have "r = takeWhile (\<lambda>x. x \<noteq> newline) r @ newline # rest"
    using takeWhile_dropWhile_id[of "\<lambda>x. x \<noteq> newline" r] by simp
  with s v have "s = v @ rest" by simp
  moreover have "newline \<notin> set (takeWhile (\<lambda>x. x \<noteq> newline) r)"
    by (auto dest: set_takeWhileD)
  ultimately show "\<exists>b. v = ''//'' @ b @ [newline] \<and> newline \<notin> set b \<and> s = v @ rest"
    using v by auto
next
  assume "\<exists>b. v = ''//'' @ b @ [newline] \<and> newline \<notin> set b \<and> s = v @ rest"
  then obtain b where v: "v = ''//'' @ b @ [newline]" and b: "newline \<notin> set b" and s: "s = v @ rest"
    by blast
  have t: "takeWhile (\<lambda>x. x \<noteq> newline) (b @ newline # rest) = b"
    using b by (rule takeWhile_upto)
  have d: "dropWhile (\<lambda>x. x \<noteq> newline) (b @ newline # rest) = newline # rest"
    using b by (rule dropWhile_upto)
  show "match_comment s = Some (v, rest)"
    using t d by (simp add: s v match_comment_def)
qed

lemma is_digit_word: "is_digit c \<Longrightarrow> is_word c"
  by (auto simp: is_digit_def is_word_def)

lemma slash_class:
  "\<not> is_word (CHR ''/'')" "\<not> is_whitespace (CHR ''/'')" "\<not> is_punctuator (CHR ''/'')"
  "CHR ''/'' \<noteq> newline"
  by (simp_all add: is_word_def is_whitespace_def is_punctuator_def newline_def)

lemma newline_class:
  "\<not> is_word newline" "\<not> is_whitespace newline" "\<not> is_punctuator newline"
  by (simp_all add: is_word_def is_whitespace_def is_punctuator_def newline_def)

lemma match_comment_hd: "match_comment (c # cs) = Some x \<Longrightarrow> c = CHR ''/''"
  by (auto simp: match_comment_def split: list.splits if_splits)

lemma regex_match_cases:
  assumes "regex_match s = Some (k, v, rest)"
  obtains
    (Comment) b where "k = ''COMMENT''" "v = ''//'' @ b @ [newline]" "newline \<notin> set b" "s = v @ rest"
  | (Newline) "k = ''NEWLINE''" "v = [newline]" "s = newline # rest"
  | (Number) c cs where "k = ''NUMBER''" "s = c # cs" "is_digit c" "v = takeWhile is_digit s"
      "rest = dropWhile is_digit s"
  | (Identifier) c cs where "k = ''IDENTIFIER''" "s = c # cs" "is_word c" "v = takeWhile is_word s"
      "rest = dropWhile is_word s"
  | (Punctuator) c where "k = ''PUNCTUATOR''" "v = [c]" "s = c # rest" "is_punctuator c"
      "c \<noteq> newline" "\<not> is_word c"
  | (Whitespace) c cs where "k = ''WHITESPACE''" "s = c # cs" "is_whitespace c"
      "v = takeWhile is_whitespace s" "rest = dropWhile is_whitespace s" "\<not> is_word c"
  | (Mismatch) c where "k = ''MISMATCH''" "v = [c]" "s = c # rest" "c \<noteq> newline"
      "\<not> is_word c" "\<not> is_punctuator c" "\<not> is_whitespace c" "match_comment s = None"
proof (cases s)
  case Nil
  with assms show ?thesis by (simp add: regex_match_def)
next
  case (Cons c cs)
  show ?thesis
  proof (cases "match_comment s")
    case (Some x)
    with assms Cons have "k = ''COMMENT''" "match_comment s = Some (v, rest)"
      by (auto simp: regex_match_def)
    with Comment show ?thesis by (auto simp: match_comment_Some)
  next
    case None
    note nc = None
    show ?thesis
    proof (cases "c = newline")
      case True
      with assms Cons nc Newline show ?thesis by (simp add: regex_match_def)
    next
      case nn: False
      show ?thesis
      proof (cases "is_digit c")
        case True
        with assms Cons nc nn Number[of c cs] show ?thesis by (simp add: regex_match_def)
      next
        case nd: False
        show ?thesis
        proof (cases "is_word c")
          case True
          with assms Cons nc nn nd Identifier[of c cs] show ?thesis by (simp add: regex_match_def)
        next
          case nw: False
          show ?thesis
          proof (cases "is_punctuator c")
            case True
            with assms Cons nc nn nd nw Punctuator[of c] show ?thesis by (simp add: regex_match_def)
          next
            case np: False
            show ?thesis
            proof (cases "is_whitespace c")
              case True
              with assms Cons nc nn nd nw np Whitespace[of c cs] show ?thesis
                by (simp add: regex_match_def)
            next
              case False
              with assms Cons nc nn nd nw np Mismatch[of c] show ?thesis
                by (simp add: regex_match_def)
            qed
          qed
        qed
      qed
    qed
  qed
qed

lemma takeWhile_sep: "t = [] \<or> \<not> P (hd t) \<Longrightarrow> takeWhile P (s @ t) = takeWhile P s"
  by (induction s) (auto simp: takeWhile_eq_Nil_iff neq_Nil_conv)

lemma dropWhile_sep: "t = [] \<or> \<not> P (hd t) \<Longrightarrow> dropWhile P (s @ t) = dropWhile P s @ t"
  by (induction s) (auto simp: dropWhile_eq_self_iff neq_Nil_conv)

lemma sep_hd:
  assumes "sep t"
  shows "t = [] \<or> \<not> is_word (hd t)" "t = [] \<or> \<not> is_digit (hd t)" "t = [] \<or> \<not> is_whitespace (hd t)"
  using assms is_digit_word by (auto simp: sep_def split: list.splits)

lemma regex_match_append:
  assumes m: "regex_match s = Some (k, v, rest)" and k: "k \<noteq> ''MISMATCH''" and t: "sep t"
  shows "regex_match (s @ t) = Some (k, v, rest @ t)"
  using m
proof (cases rule: regex_match_cases)
  case (Comment b)
  then have "match_comment (s @ t) = Some (v, rest @ t)"
    by (subst match_comment_Some) auto
  moreover from Comment have "s @ t \<noteq> []" by simp
  ultimately show ?thesis using Comment(1)
    by (cases "s @ t") (simp_all add: regex_match_def)
next
  case Newline
  then have "match_comment (s @ t) = None"
    using match_comment_hd[of newline "rest @ t"] slash_class(4)
    by (cases "match_comment (s @ t)") auto
  with Newline show ?thesis by (simp add: regex_match_def)
next
  case (Number c cs)
  from Number(3) have "c \<noteq> CHR ''/''" using slash_class(1) is_digit_word by blast
  then have "match_comment (s @ t) = None"
    using match_comment_hd[of c "cs @ t"] Number(2)
    by (cases "match_comment (s @ t)") auto
  moreover from Number(3) have "c \<noteq> newline" using newline_class(1) is_digit_word by blast
  ultimately show ?thesis
    using Number takeWhile_sep[of t is_digit s, OF sep_hd(2)[OF t]] dropWhile_sep[of t is_digit s, OF sep_hd(2)[OF t]]
    by (simp add: regex_match_def)
next
  case (Identifier c cs)
  from m Identifier have nd: "\<not> is_digit c" by (auto simp: regex_match_def split: option.splits if_splits)
  from Identifier(3) have "c \<noteq> CHR ''/''" using slash_class(1) by blast
  then have "match_comment (s @ t) = None"
    using match_comment_hd[of c "cs @ t"] Identifier(2)
    by (cases "match_comment (s @ t)") auto
  moreover from Identifier(3) have "c \<noteq> newline" using newline_class(1) by blast
  ultimately show ?thesis
    using Identifier nd takeWhile_sep[of t is_word s, OF sep_hd(1)[OF t]] dropWhile_sep[of t is_word s, OF sep_hd(1)[OF t]]
    by (simp add: regex_match_def)
next
  case (Punctuator c)
  from m Punctuator have nd: "\<not> is_digit c" using is_digit_word by blast
  from Punctuator(4) have "c \<noteq> CHR ''/''" using slash_class(3) by blast
  then have "match_comment (s @ t) = None"
    using match_comment_hd[of c "rest @ t"] Punctuator(3)
    by (cases "match_comment (s @ t)") auto
  with Punctuator nd show ?thesis by (simp add: regex_match_def)
next
  case (Whitespace c cs)
  from Whitespace have nd: "\<not> is_digit c" using is_digit_word by blast
  from m Whitespace have np: "\<not> is_punctuator c"
    by (auto simp: regex_match_def split: option.splits if_splits)
  from Whitespace(3) have "c \<noteq> CHR ''/''" using slash_class(2) by blast
  then have "match_comment (s @ t) = None"
    using match_comment_hd[of c "cs @ t"] Whitespace(2)
    by (cases "match_comment (s @ t)") auto
  moreover from Whitespace(3) have "c \<noteq> newline" using newline_class(2) by blast
  ultimately show ?thesis
    using Whitespace nd np takeWhile_sep[of t is_whitespace s, OF sep_hd(3)[OF t]]
      dropWhile_sep[of t is_whitespace s, OF sep_hd(3)[OF t]]
    by (simp add: regex_match_def)
next
  case (Mismatch c)
  with k show ?thesis by simp
qed

lemma regex_match_shape:
  assumes "regex_match s = Some (k, v, rest)"
  shows "s = v @ rest"
    and "breaks_line k \<Longrightarrow> \<exists>b. v = b @ [newline] \<and> newline \<notin> set b"
    and "\<not> breaks_line k \<Longrightarrow> newline \<notin> set v"
proof -
  have tw: "newline \<notin> set (takeWhile P s)" if "\<not> P newline" for P
    using that by (auto dest: set_takeWhileD)
  show "s = v @ rest" using assms
    by (cases rule: regex_match_cases) simp_all
  show "\<exists>b. v = b @ [newline] \<and> newline \<notin> set b" if "breaks_line k"
    using assms
  proof (cases rule: regex_match_cases)
    case (Comment b)
    then have "v = (''//'' @ b) @ [newline]" "newline \<notin> set (''//'' @ b)"
      using slash_class(4) by auto
    then show ?thesis by blast
  next
    case Newline
    then show ?thesis by simp
  qed (use that in \<open>simp_all add: breaks_line_def\<close>)
  show "newline \<notin> set v" if "\<not> breaks_line k"
    using assms
  proof (cases rule: regex_match_cases)
    case (Number c cs)
    with tw[of is_digit] newline_class(1) is_digit_word show ?thesis by auto
  next
    case (Identifier c cs)
    with tw[of is_word] newline_class(1) show ?thesis by auto
  next
    case (Whitespace c cs)
    with tw[of is_whitespace] newline_class(2) show ?thesis by auto
  qed (use that in \<open>simp_all add: breaks_line_def\<close>)
qed

lemma last_line_append:
  "last_line (v @ rest) = (if newline \<in> set rest then last_line rest else last_line v @ rest)"
proof (cases "newline \<in> set rest")
  case True
  then have "takeWhile (\<lambda>c. c \<noteq> newline) (rev rest @ rev v) = takeWhile (\<lambda>c. c \<noteq> newline) (rev rest)"
    by (intro takeWhile_append1[of newline]) simp_all
  with True show ?thesis by (simp add: last_line_def)
next
  case False
  then have "takeWhile (\<lambda>c. c \<noteq> newline) (rev rest @ rev v) =
      rev rest @ takeWhile (\<lambda>c. c \<noteq> newline) (rev v)"
    by (intro takeWhile_append2) auto
  with False show ?thesis by (simp add: last_line_def)
qed

lemma last_line_break: "last_line (b @ [newline]) = []"
  by (simp add: last_line_def)

lemma last_line_plain: "newline \<notin> set v \<Longrightarrow> last_line v = v"
proof -
  assume "newline \<notin> set v"
  then have "\<forall>x\<in>set (rev v). x \<noteq> newline" by auto
  then have "takeWhile (\<lambda>c. c \<noteq> newline) (rev v) = rev v"
    by (simp only: takeWhile_eq_all_conv)
  then show ?thesis unfolding last_line_def by (simp only: rev_rev_ident)
qed

lemma nl_count_append: "nl_count (v @ rest) = nl_count v + nl_count rest"
  by (simp add: nl_count_def)

lemma nl_count_plain: "newline \<notin> set v \<Longrightarrow> nl_count v = 0"
  by (auto simp: nl_count_def filter_empty_conv)

lemma nl_count_break: "newline \<notin> set b \<Longrightarrow> nl_count (b @ [newline]) = 1"
  using nl_count_plain[of b] by (simp add: nl_count_append) (simp add: nl_count_def)

lemma start_after_break:
  "newline \<notin> set b \<Longrightarrow>
   start_after pos start ((b @ [newline]) @ rest) =
     start_after (pos + int (length (b @ [newline]))) (pos + int (length (b @ [newline]))) rest"
  unfolding start_after_def last_line_append[of "b @ [newline]" rest] last_line_break
  by simp

lemma start_after_plain:
  "newline \<notin> set v \<Longrightarrow>
   start_after pos start (v @ rest) = start_after (pos + int (length v)) start rest"
  unfolding start_after_def last_line_append[of v rest]
  by (simp add: last_line_plain)

lemma scan_from_append:
  assumes "gen_end (scan_from pos line start pre) = None" "sep s"
  shows "scan_from pos line start (pre @ s) =
     feed (gen_tokens (scan_from pos line start pre))
       (scan_from (pos + int (length pre)) (line + nl_count pre) (start_after pos start pre) s)"
  using assms(1)
proof (induction "length pre" arbitrary: pos line start pre rule: less_induct)
  case less
  show ?case
  proof (cases "regex_match pre")
    case None
    then have "pre = []" by (simp add: regex_match_None)
    then show ?thesis
      by (simp add: scan_from.simps[of pos line start "[]"] regex_match_def nl_count_def start_after_def)
  next
    case (Some x)
    obtain k v rest where x: "x = (k, v, rest)" by (cases x)
    with Some have m: "regex_match pre = Some (k, v, rest)" by simp
    have k: "k \<noteq> ''MISMATCH''"
    proof
      assume "k = ''MISMATCH''"
      with m have "scan_from pos line start pre = Raise (RuntimeError_unexpected v (pos - start + 1) line)"
        by (simp add: scan_step_mismatch)
      with less.prems show False by simp
    qed
    note sh = regex_match_shape[OF m]
    let ?line = "if breaks_line k then line + 1 else line"
    let ?start = "if breaks_line k then pos + int (length v) else start"
    let ?pos = "pos + int (length v)"
    have s1: "scan_from pos line start pre =
        feed (emit k v line (pos - start + 1)) (scan_from ?pos ?line ?start rest)"
      using m k by (rule scan_step_ok)
    have s2: "scan_from pos line start (pre @ s) =
        feed (emit k v line (pos - start + 1)) (scan_from ?pos ?line ?start (rest @ s))"
      using regex_match_append[OF m k assms(2)] k by (rule scan_step_ok)
    from less.prems s1 have e: "gen_end (scan_from ?pos ?line ?start rest) = None" by simp
    have "length rest < length pre" using m by (rule regex_match_shorter)
    from less.hyps[OF this e]
    have ih: "scan_from ?pos ?line ?start (rest @ s) =
        feed (gen_tokens (scan_from ?pos ?line ?start rest))
          (scan_from (?pos + int (length rest)) (?line + nl_count rest)
             (start_after ?pos ?start rest) s)" .
    have p: "?pos + int (length rest) = pos + int (length pre)" using sh(1) by simp
    have l: "?line + nl_count rest = line + nl_count pre"
    proof (cases "breaks_line k")
      case True
      with sh(2) obtain b where "v = b @ [newline]" "newline \<notin> set b" by blast
      with True sh(1) nl_count_break[of b] nl_count_append[of v rest] show ?thesis by simp
    next
      case False
      with sh(1,3) show ?thesis by (simp add: nl_count_append nl_count_plain)
    qed
    have st: "start_after ?pos ?start rest = start_after pos start pre"
    proof (cases "breaks_line k")
      case True
      with sh(2) obtain b where b: "v = b @ [newline]" "newline \<notin> set b" by blast
      from start_after_break[OF b(2), of pos start rest] b(1) sh(1) True show ?thesis by simp
    next
      case False
      with sh(3) have "newline \<notin> set v" by simp
      from start_after_plain[OF this, of pos start rest] sh(1) False show ?thesis by simp
    qed
    show ?thesis
      unfolding s2 ih p l st s1 by simp
  qed
qed

lemma scan_append:
  assumes "gen_end (scan pre) = None" "sep s"
  shows "scan (pre @ s) =
     feed (gen_tokens (scan pre)) (scan_from (int (length pre)) (line_of pre) (int (length pre) - col_of pre + 1) s)"
proof -
  have "start_after 0 0 pre = int (length pre) - col_of pre + 1"
    by (cases "newline \<in> set pre") (simp_all add: start_after_def col_of_def last_line_plain)
  with scan_from_append[of 0 1 0 pre s] assms show ?thesis
    by (simp add: scan_def line_of_def)
qed

lemma mismatch_char:
  assumes "match_comment (c # post) = None" "c \<noteq> newline" "\<not> is_digit c" "\<not> is_word c"
    "\<not> is_punctuator c" "\<not> is_whitespace c"
  shows "regex_match (c # post) = Some (''MISMATCH'', [c], post)"
  using assms by (simp add: regex_match_def)

lemmas scan_eval = scan_def scan_from.simps regex_match_def match_comment_def is_digit_def
  is_word_def is_punctuator_def is_whitespace_def newline_def scanner_keywords_def
  int_of_digits_def Let_def

text \<open>
  C6. Let the text \<open>pre\<close> before a character \<open>c\<close> scan without error, and let \<open>c\<close>
  match none of the lexeme classes where it stands: no comment starts there, and \<open>c\<close>
  is no newline, digit, word character, punctuator or horizontal whitespace. Then scanning
  the whole text yields the tokens of \<open>pre\<close> and raises the error that reports \<open>c\<close>
  with its 1-based column and line; nothing follows the error.
\<close>

theorem scan_mismatch_raises:
  assumes "gen_end (scan pre) = None"
    and "match_comment (c # post) = None" and "c \<noteq> newline" and "\<not> is_digit c"
    and "\<not> is_word c" and "\<not> is_punctuator c" and "\<not> is_whitespace c"
  shows "scan (pre @ c # post) =
     feed (gen_tokens (scan pre)) (Raise (RuntimeError_unexpected [c] (col_of pre) (line_of pre)))"
proof -
  have "sep (c # post)" using assms(5,7) by (simp add: sep_def)
  from scan_append[OF assms(1) this]
    scan_step_mismatch[OF mismatch_char[OF assms(2-7)],
      of "int (length pre)" "line_of pre" "int (length pre) - col_of pre + 1"]
  show ?thesis by simp
qed

theorem scan_mismatch_raises_witness:
  "scan (''a'' @ [CHR 0x0A] @ '' b@c'') =
     Yield \<lparr>tok_type = ''IDENTIFIER'', tok_value = Str ''a'', tok_line = 1, tok_column = 1\<rparr>
      (Yield \<lparr>tok_type = ''IDENTIFIER'', tok_value = Str ''b'', tok_line = 2, tok_column = 2\<rparr>
        (Raise (RuntimeError_unexpected ''@'' 3 2)))"
proof -
  have h: "gen_end (scan (''a'' @ [CHR 0x0A] @ '' b'')) = None"
    by (simp add: scan_eval)
  from scan_mismatch_raises[OF h, of "CHR ''@''" "''c''"] show ?thesis
    by (simp add: scan_eval col_of_def line_of_def last_line_def nl_count_def)
qed

text \<open>
  C10. Let the text \<open>pre\<close> scan without error and let \<open>t\<close> hold no newline. On
  \<open>pre\<close> followed by \<open>//\<close> and \<open>t\<close>, the scanner yields the tokens of \<open>pre\<close> and
  raises the error for the first \<open>/\<close>, at its line and column; with a newline added at
  the end it yields the same tokens and ends without error.
\<close>

theorem unterminated_comment:
  assumes "gen_end (scan pre) = None" and "newline \<notin> set t"
  shows "scan (pre @ ''//'' @ t) =
           feed (gen_tokens (scan pre))
             (Raise (RuntimeError_unexpected ''/'' (col_of pre) (line_of pre))) \<and>
         scan (pre @ ''//'' @ t @ [newline]) = feed (gen_tokens (scan pre)) Stop"
proof -
  have sp: "sep (''//'' @ u)" for u
    using slash_class by (simp add: sep_def)
  have nc: "match_comment (CHR ''/'' # CHR ''/'' # t) = None"
    using assms(2) by (simp add: match_comment_def)
  have nd: "\<not> is_digit (CHR ''/'')" using slash_class(1) is_digit_word by blast
  have m1: "regex_match (''//'' @ t) = Some (''MISMATCH'', ''/'', CHR ''/'' # t)"
    using mismatch_char[OF nc slash_class(4) nd slash_class(1,3,2)] by simp
  have "match_comment (''//'' @ t @ [newline]) = Some (''//'' @ t @ [newline], [])"
    using assms(2) by (subst match_comment_Some) auto
  then have m2: "regex_match (''//'' @ t @ [newline]) = Some (''COMMENT'', ''//'' @ t @ [newline], [])"
    by (simp add: regex_match_def)
  have a: "scan (pre @ ''//'' @ t) =
           feed (gen_tokens (scan pre))
             (Raise (RuntimeError_unexpected ''/'' (col_of pre) (line_of pre)))"
    using scan_append[OF assms(1) sp[of t]]
      scan_step_mismatch[OF m1, of "int (length pre)" "line_of pre" "int (length pre) - col_of pre + 1"]
    by simp
  have "scan_from (int (length pre)) (line_of pre) (int (length pre) - col_of pre + 1)
          (''//'' @ t @ [newline]) = Stop"
    by (subst scan_step_ok[OF m2])
       (simp_all add: emit_def scan_from.simps[of _ _ _ "[]"] regex_match_def)
  with scan_append[OF assms(1) sp[of "t @ [newline]"]]
  have b: "scan (pre @ ''//'' @ t @ [newline]) = feed (gen_tokens (scan pre)) Stop" by simp
  from a b show ?thesis by blast
qed

theorem unterminated_comment_witness:
  "scan ''x // end'' =
     Yield \<lparr>tok_type = ''IDENTIFIER'', tok_value = Str ''x'', tok_line = 1, tok_column = 1\<rparr>
       (Raise (RuntimeError_unexpected ''/'' 3 1)) \<and>
   scan (''x // end'' @ [CHR 0x0A]) =
     Yield \<lparr>tok_type = ''IDENTIFIER'', tok_value = Str ''x'', tok_line = 1, tok_column = 1\<rparr> Stop"
proof -
  have h: "gen_end (scan ''x '') = None"
    by (simp add: scan_eval)
  have n: "newline \<notin> set '' end''" by (simp add: newline_def)
  from unterminated_comment[OF h n] show ?thesis
    by (simp add: scan_eval col_of_def line_of_def last_line_def nl_count_def)
qed

section \<open>Properties of the parser\<close>

subsection \<open>The parser accepts the grammar\<close>

lemma ready_simps [simp]: "ready Stop" "ready (Yield t g)" "\<not> ready (Raise e)"
  by (simp_all add: ready_def)

lemma ready_feed [simp]: "ready (feed ts g) \<longleftrightarrow> ts \<noteq> [] \<or> ready g"
  by (cases ts) simp_all

lemma advance_pstate: "ready g \<Longrightarrow> advance (pstate cur (Yield t g)) = Inr (pstate (Some t) g)"
  by (cases g) (simp_all add: advance_def pstate_def)

lemma accept_yes:
  "tok_type t = k \<Longrightarrow> ready g \<Longrightarrow> accept k (pstate cur (Yield t g)) = Inr (True, pstate (Some t) g)"
  using advance_pstate[of g cur t] by (simp add: accept_def) (simp add: pstate_def)

lemma accept_no:
  "tok_type t \<noteq> k \<Longrightarrow> accept k (pstate cur (Yield t g)) = Inr (False, pstate cur (Yield t g))"
  by (simp add: accept_def pstate_def)

lemma accept_stop: "accept k (pstate cur Stop) = Inr (False, pstate cur Stop)"
  by (simp add: accept_def pstate_def)

lemma accept_other:
  "ready g \<Longrightarrow> next_type g \<noteq> Some k \<Longrightarrow> accept k (pstate cur g) = Inr (False, pstate cur g)"
  by (cases g) (simp_all add: accept_no accept_stop next_type_def)

lemma expect_yes:
  "tok_type t = k \<Longrightarrow> ready g \<Longrightarrow> expect k (pstate cur (Yield t g)) = Inr (pstate (Some t) g)"
  by (simp add: expect_def accept_yes)

lemma token_value_pstate [simp]: "token_value (pstate (Some t) g) = Inr (tok_value t)"
  by (cases g) (simp_all add: token_value_def pstate_def)

lemma token_type_pstate [simp]: "token_type (pstate (Some t) g) = Inr (tok_type t)"
  by (cases g) (simp_all add: token_type_def pstate_def)

lemma parse_arg_rep:
  assumes "arg_rep ts a" "ready g"
  shows "parse_arg (pstate cur (feed ts g)) = Inr (a, pstate (Some (last ts)) g)"
  using assms
proof (cases rule: arg_rep.cases)
  case (plain d i1 l i2 r)
  with assms(2) show ?thesis
    by (simp add: parse_arg_def expect_yes accept_no)
next
  case (bit d i1 l i2 lb n rb r)
  with assms(2) show ?thesis
    by (simp add: parse_arg_def expect_yes accept_no accept_yes)
next
  case (range d i1 l i2 lb n1 c n2 rb r)
  with assms(2) show ?thesis
    by (simp add: parse_arg_def expect_yes accept_no accept_yes)
qed

lemma arg_rep_nonempty: "arg_rep ts a \<Longrightarrow> ts \<noteq> []"
  by (auto elim: arg_rep.cases)

lemma cur_after_simps [simp]:
  "cur_after cur [] = cur" "ts \<noteq> [] \<Longrightarrow> cur_after cur ts = Some (last ts)"
  "cur_after cur (t # ts) = Some (last (t # ts))"
  by (simp_all add: cur_after_def)

lemma cur_after_append: "cur_after cur (ts @ us) = cur_after (cur_after cur ts) us"
  by (simp add: cur_after_def)

lemma args_loop_rep:
  assumes "more_args_rep ts as" "ready g" "next_type g \<noteq> Some '',''"
  shows "args_loop acc (pstate cur (feed ts g)) = Inr (acc @ as, pstate (cur_after cur ts) g)"
  using assms
proof (induction ts as arbitrary: acc cur rule: more_args_rep.induct)
  case none
  then show ?case
    by (subst args_loop.simps) (simp add: accept_other)
next
  case (more c ts a ts' as)
  from more.hyps(2) have ne: "ts \<noteq> []" by (rule arg_rep_nonempty)
  have r: "ready (feed ts' g)" using more.prems(1) by simp
  have "args_loop acc (pstate cur (feed (c # ts @ ts') g)) =
        args_loop (acc @ [a]) (pstate (Some (last ts)) (feed ts' g))"
    using more.hyps(1) ne parse_arg_rep[OF more.hyps(2) r, of "Some c"]
    by (subst args_loop.simps) (simp add: accept_yes)
  also have "\<dots> = Inr ((acc @ [a]) @ as, pstate (cur_after (Some (last ts)) ts') g)"
    using more.prems by (rule more.IH)
  finally show ?case using ne by (simp add: cur_after_def)
qed

lemma parse_args_rep:
  assumes "args_rep ts as" "ready g" "next_type g \<noteq> Some '',''"
  shows "parse_args (pstate cur (feed ts g)) = Inr (as, pstate (Some (last ts)) g)"
  using assms(1)
proof (cases rule: args_rep.cases)
  case (1 ts1 a ts2 as')
  from 1(3) have ne: "ts1 \<noteq> []" by (rule arg_rep_nonempty)
  have r: "ready (feed ts2 g)" using assms(2) by simp
  from parse_arg_rep[OF 1(3) r, of cur] args_loop_rep[OF 1(4) assms(2,3), of "[a]" "Some (last ts1)"] ne
  show ?thesis
    by (simp add: parse_args_def 1(1,2) cur_after_def)
qed

lemma params_loop_rep:
  assumes "more_params_rep ts ps" "ready g" "next_type g \<noteq> Some '',''"
  shows "params_loop acc (pstate cur (feed ts g)) = Inr (acc @ ps, pstate (cur_after cur ts) g)"
  using assms
proof (induction ts ps arbitrary: acc cur rule: more_params_rep.induct)
  case none
  then show ?case
    by (subst params_loop.simps) (simp add: accept_other)
next
  case (more c i ts ps)
  have r: "ready (feed ts g)" using more.prems(1) by simp
  have "params_loop acc (pstate cur (feed (c # i # ts) g)) =
        params_loop (acc @ [tok_value i]) (pstate (Some i) (feed ts g))"
    using more.hyps(1,2) r
    by (subst params_loop.simps) (simp add: accept_yes expect_yes)
  also have "\<dots> = Inr ((acc @ [tok_value i]) @ ps, pstate (cur_after (Some i) ts) g)"
    using more.prems by (rule more.IH)
  finally show ?case by (simp add: cur_after_def)
qed

lemma parse_params_rep:
  assumes "params_rep ts ps" "ready g" "next_type g \<noteq> Some '',''"
  shows "parse_params (pstate cur (feed ts g)) = Inr (ps, pstate (Some (last ts)) g)"
  using assms(1)
proof (cases rule: params_rep.cases)
  case (1 i ts' ps')
  have r: "ready (feed ts' g)" using assms(2) by simp
  from params_loop_rep[OF 1(4) assms(2,3), of "[tok_value i]" "Some i"] 1(3) r
  show ?thesis
    by (simp add: parse_params_def 1(1,2) expect_yes cur_after_def)
qed

lemma parse_dimensions_rep:
  assumes "dims_rep ds (m, l)" "ready g" "next_type g \<noteq> Some ''[''"
  shows "parse_dimensions (pstate cur (feed ds g)) = Inr (m, l, pstate (cur_after cur ds) g)"
  using assms(1)
proof (cases rule: dims_rep.cases)
  case absent
  with assms(2,3) show ?thesis
    by (simp add: parse_dimensions_def accept_other)
next
  case (present lb n1 c n2 rb)
  with assms(2) show ?thesis
    by (simp add: parse_dimensions_def accept_yes expect_yes)
qed

lemma accept_net_yes:
  assumes "tok_type k \<in> {''input'', ''output'', ''wire''}" "ready g"
  shows "accept_net (pstate cur (Yield k g)) = Inr (True, pstate (Some k) g)"
proof -
  consider "tok_type k = ''output''" | "tok_type k = ''input''" | "tok_type k = ''wire''"
    using assms(1) by auto
  then show ?thesis
  proof cases
    case 1
    with assms(2) show ?thesis by (simp add: accept_net_def accept_yes)
  next
    case 2
    with assms(2) show ?thesis by (simp add: accept_net_def accept_yes accept_no)
  next
    case 3
    with assms(2) show ?thesis by (simp add: accept_net_def accept_yes accept_no)
  qed
qed

lemma accept_net_no:
  assumes "ready g" "next_type g \<notin> {Some ''input'', Some ''output'', Some ''wire''}"
  shows "accept_net (pstate cur g) = Inr (False, pstate cur g)"
  using assms by (simp add: accept_net_def accept_other)

lemma next_type_Yield [simp]: "next_type (Yield t g) = Some (tok_type t)"
  by (simp add: next_type_def)

lemma nets_loop_rep:
  assumes "nets_rep ts ns" "ready g"
    "next_type g \<notin> {Some ''input'', Some ''output'', Some ''wire''}"
  shows "nets_loop acc (pstate cur (feed ts g)) = Inr (acc @ ns, pstate (cur_after cur ts) g)"
  using assms
proof (induction ts ns arbitrary: acc cur rule: nets_rep.induct)
  case none
  then show ?case
    by (subst nets_loop.simps) (simp add: accept_net_no)
next
  case (more ts n ts' ns)
  from more.hyps(1) obtain k ds m l i s where
    ts: "ts = k # ds @ [i, s]"
    and n: "n = \<lparr>net_type = tok_type k, net_name = tok_value i, net_msb = m, net_lsb = l\<rparr>"
    and k: "tok_type k \<in> {''input'', ''output'', ''wire''}"
    and d: "dims_rep ds (m, l)" and i: "tok_type i = ''IDENTIFIER''" and s: "tok_type s = '';''"
    by (auto elim: net_rep.cases)
  let ?g1 = "Yield i (Yield s (feed ts' g))"
  have r: "ready (feed ts' g)" using more.prems(1) by simp
  have pd: "parse_dimensions (pstate (Some k) (feed ds ?g1)) =
      Inr (m, l, pstate (cur_after (Some k) ds) ?g1)"
    using d by (rule parse_dimensions_rep) (simp_all add: i)
  have "nets_loop acc (pstate cur (feed (ts @ ts') g)) =
        nets_loop (acc @ [n]) (pstate (Some s) (feed ts' g))"
    using accept_net_yes[OF k, of "feed ds ?g1" cur] pd i s r
    by (subst nets_loop.simps) (simp add: ts n expect_yes)
  also have "\<dots> = Inr ((acc @ [n]) @ ns, pstate (cur_after (Some s) ts') g)"
    using more.prems by (rule more.IH)
  finally show ?case by (simp add: ts cur_after_def)
qed

lemma args_rep_nonempty: "args_rep ts as \<Longrightarrow> ts \<noteq> []"
  by (auto elim!: args_rep.cases dest: arg_rep_nonempty)

lemma instances_loop_rep:
  assumes "instances_rep ts is" "ready g" "next_type g \<noteq> Some ''IDENTIFIER''"
  shows "instances_loop acc (pstate cur (feed ts g)) = Inr (acc @ is, pstate (cur_after cur ts) g)"
  using assms
proof (induction ts "is" arbitrary: acc cur rule: instances_rep.induct)
  case none
  then show ?case
    by (subst instances_loop.simps) (simp add: accept_other)
next
  case (more ts i ts' "is")
  from more.hyps(1) obtain t n l tsa as r s where
    ts: "ts = [t, n, l] @ tsa @ [r, s]"
    and i: "i = \<lparr>inst_type = tok_value t, inst_name = tok_value n, args = as\<rparr>"
    and ty: "tok_type t = ''IDENTIFIER''" "tok_type n = ''IDENTIFIER''" "tok_type l = ''(''"
      "tok_type r = '')''" "tok_type s = '';''"
    and a: "args_rep tsa as"
    by (auto elim: instance_rep.cases)
  let ?g1 = "Yield r (Yield s (feed ts' g))"
  have rd: "ready (feed ts' g)" using more.prems(1) by simp
  have pa: "parse_args (pstate (Some l) (feed tsa ?g1)) = Inr (as, pstate (Some (last tsa)) ?g1)"
    using a by (rule parse_args_rep) (simp_all add: ty)
  have ne: "tsa \<noteq> []" using a by (rule args_rep_nonempty)
  have "instances_loop acc (pstate cur (feed (ts @ ts') g)) =
        instances_loop (acc @ [i]) (pstate (Some s) (feed ts' g))"
    using pa ty rd ne
    by (subst instances_loop.simps) (simp add: ts i accept_yes expect_yes)
  also have "\<dots> = Inr ((acc @ [i]) @ is, pstate (cur_after (Some s) ts') g)"
    using more.prems by (rule more.IH)
  finally show ?case by (simp add: ts cur_after_def)
qed

lemma instances_rep_next:
  assumes "instances_rep ts is"
  shows "next_type (feed ts g) = (if ts = [] then next_type g else Some ''IDENTIFIER'')"
  using assms
proof (cases rule: instances_rep.cases)
  case none
  then show ?thesis by simp
next
  case (more ts1 i ts' is')
  then show ?thesis by (auto elim!: instance_rep.cases)
qed

lemma file_loop_rep:
  assumes "file_rep ts ms" "ready g" "next_type g \<noteq> Some ''module''"
  shows "file_loop acc (pstate cur (feed ts g)) = Inr (acc @ ms, pstate (cur_after cur ts) g)"
  using assms
proof (induction ts ms arbitrary: acc cur rule: file_rep.induct)
  case none
  then show ?case
    by (subst file_loop.simps) (simp add: accept_other)
next
  case (more ts md ts' ms)
  from more.hyps(1) obtain m i l pts ps r s nts ns its "is" e where
    ts: "ts = [m, i, l] @ pts @ [r, s] @ nts @ its @ [e]"
    and md: "md = \<lparr>name = tok_value i, params = ps, nets = ns, instances = is\<rparr>"
    and ty: "tok_type m = ''module''" "tok_type i = ''IDENTIFIER''" "tok_type l = ''(''"
      "tok_type r = '')''" "tok_type s = '';''" "tok_type e = ''endmodule''"
    and p: "params_rep pts ps" and n: "nets_rep nts ns" and it: "instances_rep its is"
    by (auto elim: module_rep.cases)
  let ?g4 = "feed ts' g"
  let ?g3 = "Yield e ?g4"
  let ?g2 = "feed its ?g3"
  let ?g1 = "Yield r (Yield s (feed nts ?g2))"
  have rd: "ready ?g4" using more.prems(1) by simp
  have pp: "parse_params (pstate (Some l) (feed pts ?g1)) = Inr (ps, pstate (Some (last pts)) ?g1)"
    using p by (rule parse_params_rep) (simp_all add: ty)
  have nx: "next_type ?g2 \<notin> {Some ''input'', Some ''output'', Some ''wire''}"
    by (simp add: instances_rep_next[OF it] ty)
  have pn: "parse_nets (pstate (Some s) (feed nts ?g2)) = Inr (ns, pstate (cur_after (Some s) nts) ?g2)"
    unfolding parse_nets_def using nets_loop_rep[OF n _ nx, of "[]" "Some s"] by simp
  have pi: "parse_instances (pstate c (feed its ?g3)) = Inr (is, pstate (cur_after c its) ?g3)" for c
    unfolding parse_instances_def using instances_loop_rep[OF it, of ?g3 "[]" c] by (simp add: ty)
  have "file_loop acc (pstate cur (feed (ts @ ts') g)) =
        file_loop (acc @ [md]) (pstate (Some e) ?g4)"
    using pp pn pi ty rd
    by (subst file_loop.simps) (simp add: ts md accept_yes expect_yes)
  also have "\<dots> = Inr ((acc @ [md]) @ ms, pstate (cur_after (Some e) ts') g)"
    using more.prems by (rule more.IH)
  finally show ?case by (simp add: ts cur_after_def)
qed

lemma advance_initial:
  "ready g \<Longrightarrow> advance \<lparr>token_gen = g, token = None, next_token = None\<rparr> = Inr (pstate None g)"
  by (cases g) (simp_all add: advance_def pstate_def)

lemma gen_feed_tokens: "gen_end g = None \<Longrightarrow> g = feed (gen_tokens g) Stop"
  by (induction g) simp_all

lemma parse_rep:
  assumes "gen_end (scan inp) = None" "file_rep (gen_tokens (scan inp)) ms"
  shows "parse inp = Inr (Design ms)"
proof -
  define ts where "ts = gen_tokens (scan inp)"
  have g: "scan inp = feed ts Stop"
    unfolding ts_def using assms(1) by (rule gen_feed_tokens)
  have rd: "ready (feed ts Stop)" by simp
  have a: "advance \<lparr>token_gen = scan inp, token = None, next_token = None\<rparr> =
      Inr (pstate None (feed ts Stop))"
    unfolding g using rd by (rule advance_initial)
  have f: "file_loop [] (pstate None (feed ts Stop)) = Inr ([] @ ms, pstate (cur_after None ts) Stop)"
    using assms(2)[folded ts_def] by (rule file_loop_rep) (simp_all add: next_type_def)
  have n: "next_token (pstate c Stop) = None" for c by (simp add: pstate_def)
  show ?thesis
    unfolding parse_def a by (simp add: parse_file_def f n)
qed

lemma Design_last:
  "modules (Design ms) n =
     (case filter (\<lambda>m. name m = n) ms of [] \<Rightarrow> None | x # xs \<Rightarrow> Some (last (x # xs)))"
proof (induction ms rule: rev_induct)
  case Nil
  show ?case by (simp add: Design_def)
next
  case (snoc m ms)
  show ?case
  proof (cases "name m = n")
    case True
    obtain x xs where e: "filter (\<lambda>m. name m = n) ms @ [m] = x # xs"
      by (cases "filter (\<lambda>m. name m = n) ms") auto
    have "last (filter (\<lambda>m. name m = n) ms @ [m]) = m" by simp
    then have "last (x # xs) = m" by (simp only: e)
    with True e show ?thesis by (simp add: Design_snoc)
  next
    case False
    with snoc show ?thesis by (simp add: Design_snoc)
  qed
qed


lemma simple_module_rep:
  assumes "map tok_type [m, i, l, x, r, s, e] =
    [''module'', ''IDENTIFIER'', ''('', ''IDENTIFIER'', '')'', '';'', ''endmodule'']"
  shows "module_rep [m, i, l, x, r, s, e]
    \<lparr>name = tok_value i, params = [tok_value x], nets = [], instances = []\<rparr>"
proof -
  have p: "params_rep [x] [tok_value x]"
    using assms by (intro params_rep.intros more_params_rep.none) simp
  have "module_rep ([m, i, l] @ [x] @ [r, s] @ [] @ [] @ [e])
    \<lparr>name = tok_value i, params = [tok_value x], nets = [], instances = []\<rparr>"
    using assms by (intro module_rep.intros p nets_rep.none instances_rep.none) simp_all
  then show ?thesis by simp
qed

subsection \<open>A failing call of expect ends the parse\<close>

lemma refused_ready: "refused A g \<Longrightarrow> ready g"
  by (cases g) (simp_all add: refused_def)

lemma refused_next: "refused A g \<Longrightarrow> k \<in> A \<Longrightarrow> next_type g \<noteq> Some k"
  by (cases g) (auto simp: refused_def next_type_def)

lemma expect_no:
  "ready g \<Longrightarrow> next_type g \<noteq> Some k \<Longrightarrow>
   expect k (pstate (Some t) g) = Inl (SyntaxError_expected k (tok_column t) (tok_line t))"
  by (simp add: expect_def accept_other) (cases g; simp add: pstate_def)

lemma parse_arg_stuck:
  assumes "arg_stuck pre k A" "refused A g" "cur_after cur pre = Some t"
  shows "parse_arg (pstate cur (feed pre g)) =
    Inl (SyntaxError_expected k (tok_column t) (tok_line t))"
  using assms(1)
proof (cases rule: arg_stuck.cases)
  case dot
  with assms(2,3) refused_ready[OF assms(2)] refused_next[OF assms(2)] show ?thesis
    by (simp add: parse_arg_def expect_yes expect_no accept_yes accept_other)
next
  case (port d)
  with assms(2,3) refused_ready[OF assms(2)] refused_next[OF assms(2)] show ?thesis
    by (simp add: parse_arg_def expect_yes expect_no accept_yes accept_other)
next
  case (lpar d i1)
  with assms(2,3) refused_ready[OF assms(2)] refused_next[OF assms(2)] show ?thesis
    by (simp add: parse_arg_def expect_yes expect_no accept_yes accept_other)
next
  case (net d i1 l)
  with assms(2,3) refused_ready[OF assms(2)] refused_next[OF assms(2)] show ?thesis
    by (simp add: parse_arg_def expect_yes expect_no accept_yes accept_other)
next
  case (rpar d i1 l i2)
  with assms(2,3) refused_ready[OF assms(2)] refused_next[OF assms(2)] show ?thesis
    by (simp add: parse_arg_def expect_yes expect_no accept_yes accept_other)
next
  case (msb d i1 l i2 lb)
  with assms(2,3) refused_ready[OF assms(2)] refused_next[OF assms(2)] show ?thesis
    by (simp add: parse_arg_def expect_yes expect_no accept_yes accept_other)
next
  case (rbr d i1 l i2 lb n)
  with assms(2,3) refused_ready[OF assms(2)] refused_next[OF assms(2)] show ?thesis
    by (simp add: parse_arg_def expect_yes expect_no accept_yes accept_other)
next
  case (lsb d i1 l i2 lb n1 c)
  with assms(2,3) refused_ready[OF assms(2)] refused_next[OF assms(2)] show ?thesis
    by (simp add: parse_arg_def expect_yes expect_no accept_yes accept_other)
next
  case (rbr_range d i1 l i2 lb n1 c n2)
  with assms(2,3) refused_ready[OF assms(2)] refused_next[OF assms(2)] show ?thesis
    by (simp add: parse_arg_def expect_yes expect_no accept_yes accept_other accept_no)
next
  case (rpar_bit d i1 l i2 lb n rb)
  with assms(2,3) refused_ready[OF assms(2)] refused_next[OF assms(2)] show ?thesis
    by (simp add: parse_arg_def expect_yes expect_no accept_yes accept_other accept_no)
next
  case (rpar_range d i1 l i2 lb n1 c n2 rb)
  with assms(2,3) refused_ready[OF assms(2)] refused_next[OF assms(2)] show ?thesis
    by (simp add: parse_arg_def expect_yes expect_no accept_yes accept_other accept_no)
qed


lemma args_loop_stuck:
  assumes "more_args_rep ts as" "tok_type c = '',''" "arg_stuck pre k A" "refused A g"
  shows "args_loop acc (pstate cur (feed (ts @ c # pre) g)) =
    Inl (SyntaxError_expected k (tok_column (last (c # pre))) (tok_line (last (c # pre))))"
  using assms
proof (induction ts as arbitrary: acc cur rule: more_args_rep.induct)
  case none
  have r: "ready (feed pre g)" using refused_ready[OF none(3)] by simp
  have "parse_arg (pstate (Some c) (feed pre g)) =
      Inl (SyntaxError_expected k (tok_column (last (c # pre))) (tok_line (last (c # pre))))"
    using none(2,3) by (rule parse_arg_stuck) (simp add: cur_after_def)
  with none(1) r show ?case
    by (subst args_loop.simps) (simp add: accept_yes)
next
  case (more c' ts a ts' as)
  from more.hyps(2) have ne: "ts \<noteq> []" by (rule arg_rep_nonempty)
  have r: "ready (feed (ts' @ c # pre) g)" by simp
  have "args_loop acc (pstate cur (feed (c' # ts @ ts' @ c # pre) g)) =
        args_loop (acc @ [a]) (pstate (Some (last ts)) (feed (ts' @ c # pre) g))"
    using more.hyps(1) ne parse_arg_rep[OF more.hyps(2) r, of "Some c'"]
    by (subst args_loop.simps) (simp add: accept_yes)
  also have "\<dots> = Inl (SyntaxError_expected k (tok_column (last (c # pre))) (tok_line (last (c # pre))))"
    using more.prems by (rule more.IH)
  finally show ?case by simp
qed

lemma parse_args_stuck:
  assumes "args_stuck pre k A" "refused A g" "cur_after cur pre = Some t"
  shows "parse_args (pstate cur (feed pre g)) =
    Inl (SyntaxError_expected k (tok_column t) (tok_line t))"
  using assms(1)
proof (cases rule: args_stuck.cases)
  case first
  then show ?thesis
    using parse_arg_stuck[OF _ assms(2,3)] by (simp add: parse_args_def)
next
  case (later ts as c pre')
  from later(2) obtain ts1 a ts2 as' where ts: "ts = ts1 @ ts2" and a: "arg_rep ts1 a"
    and m: "more_args_rep ts2 as'"
    by (auto elim: args_rep.cases)
  have r: "ready (feed (ts2 @ c # pre') g)" by simp
  from assms(3) have t: "t = last (c # pre')" by (simp add: later(1) cur_after_def)
  from parse_arg_rep[OF a r, of cur]
    args_loop_stuck[OF m later(3,4) assms(2), of "[a]" "Some (last ts1)"]
  show ?thesis
    by (simp add: parse_args_def later(1) ts t)
qed

lemma params_loop_stuck:
  assumes "more_params_rep ts ps" "tok_type c = '',''" "refused {''IDENTIFIER''} g"
  shows "params_loop acc (pstate cur (feed (ts @ [c]) g)) =
    Inl (SyntaxError_expected ''IDENTIFIER'' (tok_column c) (tok_line c))"
  using assms
proof (induction ts ps arbitrary: acc cur rule: more_params_rep.induct)
  case none
  with refused_ready[OF none(2)] refused_next[OF none(2), of "''IDENTIFIER''"] show ?case
    by (subst params_loop.simps) (simp add: accept_yes expect_no)
next
  case (more c' i ts ps)
  have "params_loop acc (pstate cur (feed ((c' # i # ts) @ [c]) g)) =
        params_loop (acc @ [tok_value i]) (pstate (Some i) (feed (ts @ [c]) g))"
    using more.hyps(1,2)
    by (subst params_loop.simps) (simp add: accept_yes expect_yes)
  also have "\<dots> = Inl (SyntaxError_expected ''IDENTIFIER'' (tok_column c) (tok_line c))"
    using more.prems by (rule more.IH)
  finally show ?case .
qed

lemma parse_params_stuck:
  assumes "params_stuck pre k A" "refused A g" "cur_after cur pre = Some t"
  shows "parse_params (pstate cur (feed pre g)) =
    Inl (SyntaxError_expected k (tok_column t) (tok_line t))"
  using assms(1)
proof (cases rule: params_stuck.cases)
  case first
  with assms(2,3) refused_ready[OF assms(2)] refused_next[OF assms(2)] show ?thesis
    by (simp add: parse_params_def expect_no)
next
  case (later ts ps c)
  from later(4) obtain i ts' ps' where ts: "ts = i # ts'" and i: "tok_type i = ''IDENTIFIER''"
    and m: "more_params_rep ts' ps'"
    by (auto elim: params_rep.cases)
  from assms(3) have t: "t = c" by (simp add: later(1) cur_after_def)
  from params_loop_stuck[OF m later(5), of g "[tok_value i]" "Some i"] assms(2) i
  show ?thesis
    by (simp add: parse_params_def later(1,2,3) ts t expect_yes)
qed

lemma dims_stuck_nonempty: "dims_stuck pre k A \<Longrightarrow> pre \<noteq> []"
  by (auto elim: dims_stuck.cases)

lemma parse_dimensions_stuck:
  assumes "dims_stuck pre k A" "refused A g"
  shows "parse_dimensions (pstate cur (feed pre g)) =
    Inl (SyntaxError_expected k (tok_column (last pre)) (tok_line (last pre)))"
  using assms(1)
proof (cases rule: dims_stuck.cases)
  case (msb lb)
  with refused_ready[OF assms(2)] refused_next[OF assms(2)] show ?thesis
    by (simp add: parse_dimensions_def accept_yes expect_yes expect_no)
next
  case (colon lb n1)
  with refused_ready[OF assms(2)] refused_next[OF assms(2)] show ?thesis
    by (simp add: parse_dimensions_def accept_yes expect_yes expect_no)
next
  case (lsb lb n1 c)
  with refused_ready[OF assms(2)] refused_next[OF assms(2)] show ?thesis
    by (simp add: parse_dimensions_def accept_yes expect_yes expect_no)
next
  case (rbr lb n1 c n2)
  with refused_ready[OF assms(2)] refused_next[OF assms(2)] show ?thesis
    by (simp add: parse_dimensions_def accept_yes expect_yes expect_no)
qed

lemma parse_dimensions_present:
  assumes "dims_rep ds (m, l)" "ds \<noteq> []" "ready g"
  shows "parse_dimensions (pstate cur (feed ds g)) = Inr (m, l, pstate (Some (last ds)) g)"
  using assms(1)
proof (cases rule: dims_rep.cases)
  case absent
  with assms(2) show ?thesis by simp
next
  case (present lb n1 c n2 rb)
  with assms(3) show ?thesis
    by (simp add: parse_dimensions_def accept_yes expect_yes)
qed

lemma net_stuck_nonempty: "net_stuck pre k A \<Longrightarrow> pre \<noteq> []"
  by (auto elim: net_stuck.cases)

lemma net_stuck_loop:
  assumes "net_stuck pre k A" "refused A g"
  shows "nets_loop acc (pstate cur (feed pre g)) =
    Inl (SyntaxError_expected k (tok_column (last pre)) (tok_line (last pre)))"
  using assms(1)
proof (cases rule: net_stuck.cases)
  case (name kw)
  from name(2,3) refused_ready[OF assms(2)] refused_next[OF assms(2)]
    accept_net_yes[OF name(4), of g cur]
  show ?thesis
    by (subst nets_loop.simps) (simp add: name(1) parse_dimensions_def accept_other expect_no)
next
  case (dims kw pre')
  have r: "ready (feed pre' g)"
    using refused_ready[OF assms(2)] by simp
  from dims have kw: "tok_type kw \<in> {''input'', ''output'', ''wire''}"
    and ds: "dims_stuck pre' k A" by simp_all
  from dims_stuck_nonempty[OF ds] accept_net_yes[OF kw r, of cur]
    parse_dimensions_stuck[OF ds assms(2), of "Some kw"]
  show ?thesis
    by (subst nets_loop.simps) (simp add: dims(1))
next
  case (name_dims kw ds m l)
  have r: "ready (feed ds g)"
    using refused_ready[OF assms(2)] by simp
  from name_dims(2-) refused_ready[OF assms(2)] refused_next[OF assms(2)]
    accept_net_yes[OF name_dims(4) r, of cur]
    parse_dimensions_present[OF name_dims(5,6) refused_ready[OF assms(2)], of "Some kw"]
  show ?thesis
    by (subst nets_loop.simps) (simp add: name_dims(1) expect_no)
next
  case (semi kw ds m l i)
  have r: "ready (feed ds (Yield i g))" by simp
  have pd: "parse_dimensions (pstate (Some kw) (feed ds (Yield i g))) =
      Inr (m, l, pstate (cur_after (Some kw) ds) (Yield i g))"
    using semi(5) by (rule parse_dimensions_rep) (simp_all add: semi(6))
  from semi(2-) refused_ready[OF assms(2)] refused_next[OF assms(2)]
    accept_net_yes[OF semi(4) r, of cur] pd
  show ?thesis
    by (subst nets_loop.simps) (simp add: semi(1) expect_yes expect_no)
qed

lemma nets_loop_step:
  assumes "net_rep ts n" "ready g"
  shows "nets_loop acc (pstate cur (feed ts g)) = nets_loop (acc @ [n]) (pstate (Some (last ts)) g)"
proof -
  from assms(1) obtain k ds m l i s where
    ts: "ts = k # ds @ [i, s]"
    and n: "n = \<lparr>net_type = tok_type k, net_name = tok_value i, net_msb = m, net_lsb = l\<rparr>"
    and k: "tok_type k \<in> {''input'', ''output'', ''wire''}"
    and d: "dims_rep ds (m, l)" and i: "tok_type i = ''IDENTIFIER''" and s: "tok_type s = '';''"
    by (auto elim: net_rep.cases)
  let ?g1 = "Yield i (Yield s g)"
  have pd: "parse_dimensions (pstate (Some k) (feed ds ?g1)) =
      Inr (m, l, pstate (cur_after (Some k) ds) ?g1)"
    using d by (rule parse_dimensions_rep) (simp_all add: i)
  show ?thesis
    using accept_net_yes[OF k, of "feed ds ?g1" cur] pd i s assms(2)
    by (subst nets_loop.simps) (simp add: ts n expect_yes)
qed

lemma net_rep_nonempty: "net_rep ts n \<Longrightarrow> ts \<noteq> []"
  by (auto elim: net_rep.cases)

lemma nets_loop_stuck:
  assumes "nets_rep ts ns" "net_stuck pre k A" "refused A g"
  shows "nets_loop acc (pstate cur (feed (ts @ pre) g)) =
    Inl (SyntaxError_expected k (tok_column (last pre)) (tok_line (last pre)))"
  using assms
proof (induction ts ns arbitrary: acc cur rule: nets_rep.induct)
  case none
  then show ?case by (simp add: net_stuck_loop)
next
  case (more ts n ts' ns)
  have "nets_loop acc (pstate cur (feed ts (feed (ts' @ pre) g))) =
      nets_loop (acc @ [n]) (pstate (Some (last ts)) (feed (ts' @ pre) g))"
    using more.hyps(1) by (rule nets_loop_step) (simp add: net_stuck_nonempty[OF more.prems(1)])
  also have "\<dots> = Inl (SyntaxError_expected k (tok_column (last pre)) (tok_line (last pre)))"
    using more.prems by (rule more.IH)
  finally show ?case by (simp add: feed_append)
qed


lemma args_stuck_last:
  "args_stuck pre k A \<Longrightarrow> cur_after (Some l) pre = Some (last (l # pre))"
  by (simp add: cur_after_def)

lemma instance_stuck_nonempty: "instance_stuck pre k A \<Longrightarrow> pre \<noteq> []"
  by (auto elim: instance_stuck.cases)

lemma instance_stuck_loop:
  assumes "instance_stuck pre k A" "refused A g"
  shows "instances_loop acc (pstate cur (feed pre g)) =
    Inl (SyntaxError_expected k (tok_column (last pre)) (tok_line (last pre)))"
  using assms(1)
proof (cases rule: instance_stuck.cases)
  case (name t)
  with refused_ready[OF assms(2)] refused_next[OF assms(2)] show ?thesis
    by (subst instances_loop.simps) (simp add: accept_yes expect_no)
next
  case (lpar t n)
  with refused_ready[OF assms(2)] refused_next[OF assms(2)] show ?thesis
    by (subst instances_loop.simps) (simp add: accept_yes expect_yes expect_no)
next
  case (args t n l pre')
  from args have ty: "tok_type t = ''IDENTIFIER''" "tok_type n = ''IDENTIFIER''" "tok_type l = ''(''"
    and st: "args_stuck pre' k A" by simp_all
  have r: "ready (feed pre' g)" using refused_ready[OF assms(2)] by simp
  from parse_args_stuck[OF st assms(2) args_stuck_last[OF st, of l]] ty r
  show ?thesis
    by (subst instances_loop.simps) (simp add: args(1) accept_yes expect_yes)
next
  case (rpar t n l ts as)
  from rpar have ty: "tok_type t = ''IDENTIFIER''" "tok_type n = ''IDENTIFIER''" "tok_type l = ''(''"
    and a: "args_rep ts as" and k: "k = '')''" and A: "A = {'','', '')''}" by simp_all
  have ne: "ts \<noteq> []" using a by (rule args_rep_nonempty)
  have pa: "parse_args (pstate (Some l) (feed ts g)) = Inr (as, pstate (Some (last ts)) g)"
    using a refused_ready[OF assms(2)] refused_next[OF assms(2), of "'',''"]
    by (rule parse_args_rep) (simp add: A)
  from pa ty ne refused_ready[OF assms(2)] refused_next[OF assms(2), of "'')''"]
  show ?thesis
    by (subst instances_loop.simps) (simp add: rpar(1) k A accept_yes expect_yes expect_no)
next
  case (semi t n l ts as r)
  from semi have ty: "tok_type t = ''IDENTIFIER''" "tok_type n = ''IDENTIFIER''" "tok_type l = ''(''"
      "tok_type r = '')''"
    and a: "args_rep ts as" and k: "k = '';''" and A: "A = {'';''}" by simp_all
  have ne: "ts \<noteq> []" using a by (rule args_rep_nonempty)
  have pa: "parse_args (pstate (Some l) (feed ts (Yield r g))) =
      Inr (as, pstate (Some (last ts)) (Yield r g))"
    using a by (rule parse_args_rep) (simp_all add: ty)
  from pa ty ne refused_ready[OF assms(2)] refused_next[OF assms(2), of "'';''"]
  show ?thesis
    by (subst instances_loop.simps) (simp add: semi(1) k A accept_yes expect_yes expect_no)
qed

lemma instances_loop_step:
  assumes "instance_rep ts i" "ready g"
  shows "instances_loop acc (pstate cur (feed ts g)) =
    instances_loop (acc @ [i]) (pstate (Some (last ts)) g)"
proof -
  from assms(1) obtain t n l tsa as r s where
    ts: "ts = [t, n, l] @ tsa @ [r, s]"
    and i: "i = \<lparr>inst_type = tok_value t, inst_name = tok_value n, args = as\<rparr>"
    and ty: "tok_type t = ''IDENTIFIER''" "tok_type n = ''IDENTIFIER''" "tok_type l = ''(''"
      "tok_type r = '')''" "tok_type s = '';''"
    and a: "args_rep tsa as"
    by (auto elim: instance_rep.cases)
  let ?g1 = "Yield r (Yield s g)"
  have pa: "parse_args (pstate (Some l) (feed tsa ?g1)) = Inr (as, pstate (Some (last tsa)) ?g1)"
    using a by (rule parse_args_rep) (simp_all add: ty)
  have ne: "tsa \<noteq> []" using a by (rule args_rep_nonempty)
  show ?thesis
    using pa ty assms(2) ne
    by (subst instances_loop.simps) (simp add: ts i accept_yes expect_yes)
qed

lemma instances_loop_stuck:
  assumes "instances_rep ts is" "instance_stuck pre k A" "refused A g"
  shows "instances_loop acc (pstate cur (feed (ts @ pre) g)) =
    Inl (SyntaxError_expected k (tok_column (last pre)) (tok_line (last pre)))"
  using assms
proof (induction ts "is" arbitrary: acc cur rule: instances_rep.induct)
  case none
  then show ?case by (simp add: instance_stuck_loop)
next
  case (more ts i ts' "is")
  have "instances_loop acc (pstate cur (feed ts (feed (ts' @ pre) g))) =
      instances_loop (acc @ [i]) (pstate (Some (last ts)) (feed (ts' @ pre) g))"
    using more.hyps(1)
    by (rule instances_loop_step) (simp add: instance_stuck_nonempty[OF more.prems(1)])
  also have "\<dots> = Inl (SyntaxError_expected k (tok_column (last pre)) (tok_line (last pre)))"
    using more.prems by (rule more.IH)
  finally show ?case by simp
qed

lemma nets_stuck_parse:
  assumes "nets_stuck pre k A" "refused A g"
  shows "pre \<noteq> [] \<and> parse_nets (pstate cur (feed pre g)) =
    Inl (SyntaxError_expected k (tok_column (last pre)) (tok_line (last pre)))"
  using assms(1)
proof (cases rule: nets_stuck.cases)
  case (1 ts ns pre')
  from nets_loop_stuck[OF 1(2,3) assms(2), of "[]" cur] net_stuck_nonempty[OF 1(3)]
  show ?thesis by (simp add: parse_nets_def 1(1))
qed

lemma instance_stuck_next:
  "instance_stuck pre k A \<Longrightarrow> next_type (feed pre g) = Some ''IDENTIFIER''"
  by (auto elim!: instance_stuck.cases)

lemma instances_stuck_parse:
  assumes "instances_stuck pre k A" "refused A g"
  shows "pre \<noteq> [] \<and> next_type (feed pre g) = Some ''IDENTIFIER'' \<and>
    parse_instances (pstate cur (feed pre g)) =
    Inl (SyntaxError_expected k (tok_column (last pre)) (tok_line (last pre)))"
  using assms(1)
proof (cases rule: instances_stuck.cases)
  case (1 ts "is" pre')
  have ne: "pre' \<noteq> []" using 1(3) by (rule instance_stuck_nonempty)
  have "next_type (feed ts (feed pre' g)) = Some ''IDENTIFIER''"
    using instances_rep_next[OF 1(2), of "feed pre' g"] instance_stuck_next[OF 1(3), of g]
    by simp
  with instances_loop_stuck[OF 1(2,3) assms(2), of "[]" cur] ne
  show ?thesis by (simp add: parse_instances_def 1(1))
qed

lemma params_rep_nonempty: "params_rep ts ps \<Longrightarrow> ts \<noteq> []"
  by (auto elim: params_rep.cases)

lemma module_stuck_nonempty: "module_stuck pre k A \<Longrightarrow> pre \<noteq> []"
  by (auto elim: module_stuck.cases)

lemma module_stuck_loop:
  assumes "module_stuck pre k A" "refused A g"
  shows "file_loop acc (pstate cur (feed pre g)) =
    Inl (SyntaxError_expected k (tok_column (last pre)) (tok_line (last pre)))"
  using assms(1)
proof (cases rule: module_stuck.cases)
  case (name m)
  with refused_ready[OF assms(2)] refused_next[OF assms(2)] show ?thesis
    by (subst file_loop.simps) (simp add: accept_yes expect_no)
next
  case (lpar m i)
  with refused_ready[OF assms(2)] refused_next[OF assms(2)] show ?thesis
    by (subst file_loop.simps) (simp add: accept_yes expect_yes expect_no)
next
  case (params m i l pre')
  from params have ty: "tok_type m = ''module''" "tok_type i = ''IDENTIFIER''" "tok_type l = ''(''"
    and st: "params_stuck pre' k A" by simp_all
  have r: "ready (feed pre' g)" using refused_ready[OF assms(2)] by simp
  have c: "cur_after (Some l) pre' = Some (last (l # pre'))" by (simp add: cur_after_def)
  from parse_params_stuck[OF st assms(2) c] ty r
  show ?thesis
    by (subst file_loop.simps) (simp add: params(1) accept_yes expect_yes)
next
  case (rpar m i l pts ps)
  from rpar have ty: "tok_type m = ''module''" "tok_type i = ''IDENTIFIER''" "tok_type l = ''(''"
    and p: "params_rep pts ps" and k: "k = '')''" and A: "A = {'','', '')''}" by simp_all
  have ne: "pts \<noteq> []" using p by (rule params_rep_nonempty)
  have pp: "parse_params (pstate (Some l) (feed pts g)) = Inr (ps, pstate (Some (last pts)) g)"
    using p refused_ready[OF assms(2)] refused_next[OF assms(2), of "'',''"]
    by (rule parse_params_rep) (simp add: A)
  from pp ty ne refused_ready[OF assms(2)] refused_next[OF assms(2), of "'')''"]
  show ?thesis
    by (subst file_loop.simps) (simp add: rpar(1) k A accept_yes expect_yes expect_no)
next
  case (semi m i l pts ps r)
  from semi have ty: "tok_type m = ''module''" "tok_type i = ''IDENTIFIER''" "tok_type l = ''(''"
      "tok_type r = '')''"
    and p: "params_rep pts ps" and k: "k = '';''" and A: "A = {'';''}" by simp_all
  have ne: "pts \<noteq> []" using p by (rule params_rep_nonempty)
  have pp: "parse_params (pstate (Some l) (feed pts (Yield r g))) =
      Inr (ps, pstate (Some (last pts)) (Yield r g))"
    using p by (rule parse_params_rep) (simp_all add: ty)
  from pp ty ne refused_ready[OF assms(2)] refused_next[OF assms(2), of "'';''"]
  show ?thesis
    by (subst file_loop.simps) (simp add: semi(1) k A accept_yes expect_yes expect_no)
next
  case (nets m i l pts ps r s pre')
  from nets have ty: "tok_type m = ''module''" "tok_type i = ''IDENTIFIER''" "tok_type l = ''(''"
      "tok_type r = '')''" "tok_type s = '';''"
    and p: "params_rep pts ps" and st: "nets_stuck pre' k A" by simp_all
  let ?g1 = "Yield r (Yield s (feed pre' g))"
  have ne: "pts \<noteq> []" using p by (rule params_rep_nonempty)
  have pp: "parse_params (pstate (Some l) (feed pts ?g1)) = Inr (ps, pstate (Some (last pts)) ?g1)"
    using p by (rule parse_params_rep) (simp_all add: ty)
  note pn = nets_stuck_parse[OF st assms(2), of "Some s"]
  have r: "ready (feed pre' g)" using pn by simp
  from pp pn ty ne r
  show ?thesis
    by (subst file_loop.simps) (simp add: nets(1) accept_yes expect_yes)
next
  case (instances m i l pts ps r s nts ns pre')
  from instances have ty: "tok_type m = ''module''" "tok_type i = ''IDENTIFIER''" "tok_type l = ''(''"
      "tok_type r = '')''" "tok_type s = '';''"
    and p: "params_rep pts ps" and n: "nets_rep nts ns" and st: "instances_stuck pre' k A"
    by simp_all
  let ?g2 = "feed pre' g"
  let ?g1 = "Yield r (Yield s (feed nts ?g2))"
  have ne: "pts \<noteq> []" using p by (rule params_rep_nonempty)
  have pp: "parse_params (pstate (Some l) (feed pts ?g1)) = Inr (ps, pstate (Some (last pts)) ?g1)"
    using p by (rule parse_params_rep) (simp_all add: ty)
  note pi = instances_stuck_parse[OF st assms(2)]
  have r: "ready ?g2" using pi[of None] by simp
  have nx: "next_type ?g2 \<notin> {Some ''input'', Some ''output'', Some ''wire''}"
    using pi[of None] by simp
  have pn: "parse_nets (pstate (Some s) (feed nts ?g2)) = Inr (ns, pstate (cur_after (Some s) nts) ?g2)"
    unfolding parse_nets_def using nets_loop_rep[OF n r nx, of "[]" "Some s"] by simp
  from pp pn pi[of "cur_after (Some s) nts"] ty ne r
  show ?thesis
    by (subst file_loop.simps) (simp add: instances(1) accept_yes expect_yes)
next
  case (end_nets m i l pts ps r s nts ns)
  from end_nets have ty: "tok_type m = ''module''" "tok_type i = ''IDENTIFIER''" "tok_type l = ''(''"
      "tok_type r = '')''" "tok_type s = '';''"
    and p: "params_rep pts ps" and n: "nets_rep nts ns" and k: "k = ''endmodule''"
    and A: "A = {''input'', ''output'', ''wire'', ''IDENTIFIER'', ''endmodule''}"
    by simp_all
  let ?g1 = "Yield r (Yield s (feed nts g))"
  have ne: "pts \<noteq> []" using p by (rule params_rep_nonempty)
  have pp: "parse_params (pstate (Some l) (feed pts ?g1)) = Inr (ps, pstate (Some (last pts)) ?g1)"
    using p by (rule parse_params_rep) (simp_all add: ty)
  have r: "ready g" using assms(2) by (rule refused_ready)
  have nx: "next_type g \<notin> {Some ''input'', Some ''output'', Some ''wire''}"
    using refused_next[OF assms(2), of "''input''"] refused_next[OF assms(2), of "''output''"]
      refused_next[OF assms(2), of "''wire''"] by (simp add: A)
  have pn: "parse_nets (pstate (Some s) (feed nts g)) = Inr (ns, pstate (cur_after (Some s) nts) g)"
    unfolding parse_nets_def using nets_loop_rep[OF n r nx, of "[]" "Some s"] by simp
  have c: "cur_after (Some s) nts = Some (last (s # nts))" by (simp add: cur_after_def)
  have pi: "parse_instances (pstate c g) = Inr ([], pstate c g)" for c
    unfolding parse_instances_def
    using r refused_next[OF assms(2), of "''IDENTIFIER''"]
    by (subst instances_loop.simps) (simp add: A accept_other)
  from pp pn pi ty ne r refused_next[OF assms(2), of "''endmodule''"]
  show ?thesis
    by (subst file_loop.simps) (simp add: end_nets(1) k A c accept_yes expect_yes expect_no)
next
  case (end_instances m i l pts ps r s nts ns its "is")
  from end_instances have ty: "tok_type m = ''module''" "tok_type i = ''IDENTIFIER''"
      "tok_type l = ''(''" "tok_type r = '')''" "tok_type s = '';''"
    and p: "params_rep pts ps" and n: "nets_rep nts ns" and it: "instances_rep its is"
    and ine: "its \<noteq> []" and k: "k = ''endmodule''" and A: "A = {''IDENTIFIER'', ''endmodule''}"
    by simp_all
  let ?g2 = "feed its g"
  let ?g1 = "Yield r (Yield s (feed nts ?g2))"
  have ne: "pts \<noteq> []" using p by (rule params_rep_nonempty)
  have pp: "parse_params (pstate (Some l) (feed pts ?g1)) = Inr (ps, pstate (Some (last pts)) ?g1)"
    using p by (rule parse_params_rep) (simp_all add: ty)
  have r: "ready g" using assms(2) by (rule refused_ready)
  have nx: "next_type ?g2 \<notin> {Some ''input'', Some ''output'', Some ''wire''}"
    by (simp add: instances_rep_next[OF it] ine)
  have pn: "parse_nets (pstate (Some s) (feed nts ?g2)) = Inr (ns, pstate (cur_after (Some s) nts) ?g2)"
    unfolding parse_nets_def using nets_loop_rep[OF n _ nx, of "[]" "Some s"] r by simp
  have pi: "parse_instances (pstate c (feed its g)) = Inr (is, pstate (Some (last its)) g)" for c
    unfolding parse_instances_def
    using instances_loop_rep[OF it r, of "[]" c] refused_next[OF assms(2), of "''IDENTIFIER''"] ine
    by (simp add: A)
  from pp pn pi ty ne r ine refused_next[OF assms(2), of "''endmodule''"]
  show ?thesis
    by (subst file_loop.simps) (simp add: end_instances(1) k A accept_yes expect_yes expect_no)
qed

lemma file_loop_step:
  assumes "module_rep ts md" "ready g"
  shows "file_loop acc (pstate cur (feed ts g)) = file_loop (acc @ [md]) (pstate (Some (last ts)) g)"
proof -
  from assms(1) obtain m i l pts ps r s nts ns its "is" e where
    ts: "ts = [m, i, l] @ pts @ [r, s] @ nts @ its @ [e]"
    and md: "md = \<lparr>name = tok_value i, params = ps, nets = ns, instances = is\<rparr>"
    and ty: "tok_type m = ''module''" "tok_type i = ''IDENTIFIER''" "tok_type l = ''(''"
      "tok_type r = '')''" "tok_type s = '';''" "tok_type e = ''endmodule''"
    and p: "params_rep pts ps" and n: "nets_rep nts ns" and it: "instances_rep its is"
    by (auto elim: module_rep.cases)
  let ?g3 = "Yield e g"
  let ?g2 = "feed its ?g3"
  let ?g1 = "Yield r (Yield s (feed nts ?g2))"
  have pp: "parse_params (pstate (Some l) (feed pts ?g1)) = Inr (ps, pstate (Some (last pts)) ?g1)"
    using p by (rule parse_params_rep) (simp_all add: ty)
  have nx: "next_type ?g2 \<notin> {Some ''input'', Some ''output'', Some ''wire''}"
    by (simp add: instances_rep_next[OF it] ty)
  have pn: "parse_nets (pstate (Some s) (feed nts ?g2)) = Inr (ns, pstate (cur_after (Some s) nts) ?g2)"
    unfolding parse_nets_def using nets_loop_rep[OF n _ nx, of "[]" "Some s"] by simp
  have pi: "parse_instances (pstate c (feed its ?g3)) = Inr (is, pstate (cur_after c its) ?g3)" for c
    unfolding parse_instances_def using instances_loop_rep[OF it, of ?g3 "[]" c] by (simp add: ty)
  show ?thesis
    using pp pn pi ty assms(2)
    by (subst file_loop.simps) (simp add: ts md accept_yes expect_yes)
qed

lemma file_loop_stuck:
  assumes "file_rep ts ms" "module_stuck pre k A" "refused A g"
  shows "file_loop acc (pstate cur (feed (ts @ pre) g)) =
    Inl (SyntaxError_expected k (tok_column (last pre)) (tok_line (last pre)))"
  using assms
proof (induction ts ms arbitrary: acc cur rule: file_rep.induct)
  case none
  then show ?case by (simp add: module_stuck_loop)
next
  case (more ts md ts' ms)
  have "file_loop acc (pstate cur (feed ts (feed (ts' @ pre) g))) =
      file_loop (acc @ [md]) (pstate (Some (last ts)) (feed (ts' @ pre) g))"
    using more.hyps(1)
    by (rule file_loop_step) (simp add: module_stuck_nonempty[OF more.prems(1)])
  also have "\<dots> = Inl (SyntaxError_expected k (tok_column (last pre)) (tok_line (last pre)))"
    using more.prems by (rule more.IH)
  finally show ?case by simp
qed

lemma parse_stuck:
  assumes "scan inp = feed pre g" "file_stuck pre k A" "refused A g"
  shows "pre \<noteq> [] \<and>
    parse inp = Inl (SyntaxError_expected k (tok_column (last pre)) (tok_line (last pre)))"
  using assms(2)
proof (cases rule: file_stuck.cases)
  case (1 ts ms pre')
  have ne: "pre' \<noteq> []" using 1(3) by (rule module_stuck_nonempty)
  have a: "advance \<lparr>token_gen = scan inp, token = None, next_token = None\<rparr> =
      Inr (pstate None (feed pre g))"
    unfolding assms(1) by (rule advance_initial) (simp add: 1(1) ne)
  from file_loop_stuck[OF 1(2,3) assms(3), of "[]" None] ne
  show ?thesis
    unfolding parse_def a by (simp add: parse_file_def 1(1))
qed

subsection \<open>Every result of the parser\<close>

lemma refused_iff: "refused A g \<longleftrightarrow> ready g \<and> (\<forall>k\<in>A. next_type g \<noteq> Some k)"
  by (cases g) (auto simp: refused_def next_type_def)

lemma run_start: "run rep stuck X cur (feed [] g) r \<Longrightarrow> run rep stuck X cur g r"
  by simp

lemma expect_run:
  assumes "ready g"
    and "next_type g \<noteq> Some k \<Longrightarrow>
      run rep stuck X c0 (feed pre g) (Inl (SyntaxError_expected k (tok_column t) (tok_line t)))"
    and "\<And>t' g'. g = Yield t' g' \<Longrightarrow> tok_type t' = k \<Longrightarrow> ready g' \<Longrightarrow>
      run rep stuck X c0 (feed (pre @ [t']) g') (f (pstate (Some t') g'))"
  shows "run rep stuck X c0 (feed pre g) (bind (expect k (pstate (Some t) g)) f)"
proof (cases "next_type g = Some k")
  case False
  with assms(1,2) show ?thesis by (simp add: expect_no)
next
  case True
  then obtain t' g' where g: "g = Yield t' g'" and t: "tok_type t' = k"
    by (cases g) (auto simp: next_type_def)
  show ?thesis
  proof (cases "ready g'")
    case True
    with assms(3)[OF g t True] t show ?thesis by (simp add: g expect_yes)
  next
    case False
    then obtain e where e: "g' = Raise e" by (cases g') simp_all
    have "expect k (pstate (Some t) g) = Inl e"
      using t by (simp add: g e expect_def accept_def advance_def pstate_def)
    then show ?thesis by (simp add: g e run.lex)
  qed
qed

lemma accept_run:
  assumes "ready g"
    and "next_type g \<noteq> Some k \<Longrightarrow> run rep stuck X c0 (feed pre g) (f (False, pstate cur g))"
    and "\<And>t' g'. g = Yield t' g' \<Longrightarrow> tok_type t' = k \<Longrightarrow> ready g' \<Longrightarrow>
      run rep stuck X c0 (feed (pre @ [t']) g') (f (True, pstate (Some t') g'))"
  shows "run rep stuck X c0 (feed pre g) (bind (accept k (pstate cur g)) f)"
proof (cases "next_type g = Some k")
  case False
  with assms(1,2) show ?thesis by (simp add: accept_other)
next
  case True
  then obtain t' g' where g: "g = Yield t' g'" and t: "tok_type t' = k"
    by (cases g) (auto simp: next_type_def)
  show ?thesis
  proof (cases "ready g'")
    case True
    with assms(3)[OF g t True] t show ?thesis by (simp add: g accept_yes)
  next
    case False
    then obtain e where e: "g' = Raise e" by (cases g') simp_all
    have "accept k (pstate cur g) = Inl e"
      using t by (simp add: g e accept_def advance_def pstate_def)
    then show ?thesis by (simp add: g e run.lex)
  qed
qed

lemma call_run:
  assumes "run rep' stuck' X' cur g r"
    and "\<And>ts v g'. g = feed ts g' \<Longrightarrow> rep' ts v \<Longrightarrow> refused (X' ts) g' \<Longrightarrow>
      run rep stuck X c0 (feed (pre @ ts) g') (f (v, pstate (cur_after cur ts) g'))"
    and "\<And>pre' k A g' t. g = feed pre' g' \<Longrightarrow> stuck' pre' k A \<Longrightarrow> refused A g' \<Longrightarrow>
      cur_after cur pre' = Some t \<Longrightarrow>
      run rep stuck X c0 (feed (pre @ pre') g')
        (Inl (SyntaxError_expected k (tok_column t) (tok_line t)))"
  shows "run rep stuck X c0 (feed pre g) (bind r f)"
  using assms(1)
proof (cases rule: run.cases)
  case (ok p ts g' v)
  with assms(2)[OF ok(1) ok(5) ok(4)] show ?thesis by simp
next
  case (stuck pre' t A g' k)
  with assms(3)[OF stuck(1) stuck(5) stuck(4) stuck(3)] show ?thesis by simp
next
  case (lex e)
  then show ?thesis by (simp add: run.lex)
qed

lemma bind_assoc: "bind (bind r f) h = bind r (\<lambda>x. bind (f x) h)"
  by (cases r) simp_all

lemmas run_simps = token_value_pstate token_type_pstate bind_Inr bind_assoc prod.case if_True
  if_False not_True_eq_False not_False_eq_True

lemma parse_arg_run:
  assumes "ready g"
  shows "run arg_rep arg_stuck (\<lambda>ts. {}) (Some t0) g (parse_arg (pstate (Some t0) g))"
  using assms unfolding parse_arg_def
  apply -
  apply (rule run_start)
  apply ((rule expect_run accept_run | assumption | simp only: run_simps
      | (rule run.stuck; (simp only: append_Nil append_Cons)?; (rule arg_stuck.intros)?;
          simp add: refused_iff)
      | (rule run.ok; (simp only: append_Nil append_Cons)?; (rule arg_rep.intros)?;
          simp add: refused_iff))+)
  done


lemma run_prefix:
  assumes "run rep' stuck' X' cur' g r"
    and "cur' = cur_after cur pre"
    and "\<And>ts v g'. g = feed ts g' \<Longrightarrow> rep' ts v \<Longrightarrow> refused (X' ts) g' \<Longrightarrow>
      rep (pre @ ts) v \<and> refused (X (pre @ ts)) g'"
    and "\<And>p k A. stuck' p k A \<Longrightarrow> stuck (pre @ p) k A"
  shows "run rep stuck X cur (feed pre g) r"
  using assms(1)
proof (cases rule: run.cases)
  case (ok p ts g' v)
  from assms(3)[OF ok(1) ok(5) ok(4)] have "rep (pre @ ts) v" "refused (X (pre @ ts)) g'"
    by simp_all
  moreover have "p = pstate (cur_after cur (pre @ ts)) g'"
    by (simp add: ok(3) assms(2) cur_after_append)
  ultimately have "run rep stuck X cur (feed (pre @ ts) g') (Inr (v, p))"
    by (intro run.ok)
  then show ?thesis by (simp add: ok(1,2))
next
  case (stuck pre' t A g' k)
  have "cur_after cur (pre @ pre') = Some t"
    using stuck(3) by (simp add: assms(2) cur_after_append)
  then have "run rep stuck X cur (feed (pre @ pre') g')
      (Inl (SyntaxError_expected k (tok_column t) (tok_line t)))"
    using stuck(4) assms(4)[OF stuck(5)] by (rule run.stuck)
  then show ?thesis by (simp add: stuck(1,2))
next
  case (lex e)
  then show ?thesis by (simp add: run.lex)
qed


lemma pending_feed: "pending (feed ts g) = length ts + pending g"
  by (induction ts) simp_all

lemma args_loop_run:
  "ready g \<Longrightarrow>
   run (\<lambda>ts v. \<exists>as. more_args_rep ts as \<and> v = acc @ as)
     (\<lambda>pre k A. \<exists>ts as c pre'. pre = ts @ c # pre' \<and> more_args_rep ts as \<and> tok_type c = '','' \<and>
        arg_stuck pre' k A)
     (\<lambda>ts. {'',''}) cur g (args_loop acc (pstate cur g))"
proof (induction "pending g" arbitrary: g acc cur rule: less_induct)
  case less
  let ?stuck = "\<lambda>pre k A. \<exists>ts as c pre'. pre = ts @ c # pre' \<and> more_args_rep ts as \<and>
    tok_type c = '','' \<and> arg_stuck pre' k A"
  let ?run = "\<lambda>acc. run (\<lambda>ts v. \<exists>as. more_args_rep ts as \<and> v = acc @ as) ?stuck (\<lambda>ts. {'',''})"
  have no: "?run acc cur (feed [] g) (Inr (acc, pstate cur g))" if "next_type g \<noteq> Some '',''"
    using that less.prems by (intro run.ok) (auto simp: refused_iff intro: more_args_rep.none)
  have yes: "?run acc cur (feed ([] @ [c]) g1)
      (bind (parse_arg (pstate (Some c) g1)) (\<lambda>(a, p). args_loop (acc @ [a]) p))"
    if g: "g = Yield c g1" and c: "tok_type c = '',''" and r: "ready g1" for c g1
  proof (rule call_run[OF parse_arg_run[OF r]], goal_cases)
    case (1 ts a g2)
    have lt: "pending g2 < pending g" by (simp add: g 1(1) pending_feed)
    have "ready g2" using 1(3) by (simp add: refused_iff)
    then have "?run (acc @ [a]) (cur_after (Some c) ts) g2
        (args_loop (acc @ [a]) (pstate (cur_after (Some c) ts) g2))"
      by (rule less.hyps[OF lt])
    then have "?run acc cur (feed (([] @ [c]) @ ts) g2)
        (args_loop (acc @ [a]) (pstate (cur_after (Some c) ts) g2))"
    proof (rule run_prefix, goal_cases)
      case 1
      show ?case by (simp add: cur_after_def)
    next
      case (2 ts' v g')
      from 2(2) obtain as where "more_args_rep ts' as" "v = (acc @ [a]) @ as" by blast
      with c 1(2) have "more_args_rep (c # ts @ ts') (a # as)" "v = acc @ a # as"
        by (auto intro: more_args_rep.more)
      with 2(3) show ?case by auto
    next
      case (3 p k A)
      then obtain ts' as c' pre' where p: "p = ts' @ c' # pre'" and m: "more_args_rep ts' as"
        and c': "tok_type c' = '',''" and st: "arg_stuck pre' k A" by blast
      from c 1(2) m have "more_args_rep (c # ts @ ts') (a # as)" by (rule more_args_rep.more)
      with c' st show ?case
        by (intro exI[of _ "c # ts @ ts'"] exI[of _ "a # as"] exI[of _ c'] exI[of _ pre'])
          (simp add: p)
    qed
    then show ?case by simp
  next
    case (2 pre' k A g2 t)
    have "?stuck (([] @ [c]) @ pre') k A"
      using c 2(2) by (intro exI[of _ "[]"] exI[of _ "[]"] exI[of _ c] exI[of _ pre'])
        (simp add: more_args_rep.none)
    moreover have "cur_after cur (([] @ [c]) @ pre') = Some t"
      using 2(4) by (auto simp: cur_after_def split: if_splits)
    ultimately show ?case using 2(3) by (intro run.stuck)
  qed
  show ?case
    apply (subst args_loop.simps)
    apply (rule run_start)
    apply (rule accept_run[OF less.prems])
    using no yes by (simp_all only: run_simps)
qed

lemma parse_args_run:
  assumes "ready g"
  shows "run args_rep args_stuck (\<lambda>ts. {'',''}) (Some t0) g (parse_args (pstate (Some t0) g))"
  unfolding parse_args_def
proof (rule run_start, rule call_run[OF parse_arg_run[OF assms]], goal_cases)
  case (1 ts a g2)
  have "ready g2" using 1(3) by (simp add: refused_iff)
  from args_loop_run[OF this, of "[a]" "cur_after (Some t0) ts"]
  have "run args_rep args_stuck (\<lambda>ts. {'',''}) (Some t0) (feed ([] @ ts) g2)
      (args_loop [a] (pstate (cur_after (Some t0) ts) g2))"
  proof (rule run_prefix, goal_cases)
    case 1
    show ?case by simp
  next
    case (2 ts' v g')
    from 2(2) obtain as where "more_args_rep ts' as" "v = [a] @ as" by blast
    with 1(2) have "args_rep (ts @ ts') v" by (auto intro: args_rep.intros)
    with 2(3) show ?case by simp
  next
    case (3 p k A)
    then obtain ts' as c' pre' where p: "p = ts' @ c' # pre'" and m: "more_args_rep ts' as"
      and c': "tok_type c' = '',''" and st: "arg_stuck pre' k A" by blast
    from 1(2) m have "args_rep (ts @ ts') (a # as)" by (rule args_rep.intros)
    from args_stuck.later[OF this c' st] show ?case by (simp add: p)
  qed
  then show ?case by simp
next
  case (2 pre' k A g2 t)
  have "args_stuck ([] @ pre') k A" using 2(2) by (simp add: args_stuck.first)
  moreover have "cur_after (Some t0) ([] @ pre') = Some t" using 2(4) by simp
  ultimately show ?case using 2(3) by (intro run.stuck)
qed


lemma params_loop_run:
  "ready g \<Longrightarrow>
   run (\<lambda>ts v. \<exists>ps. more_params_rep ts ps \<and> v = acc @ ps)
     (\<lambda>pre k A. \<exists>ts ps c. pre = ts @ [c] \<and> more_params_rep ts ps \<and> tok_type c = '','' \<and>
        k = ''IDENTIFIER'' \<and> A = {''IDENTIFIER''})
     (\<lambda>ts. {'',''}) cur g (params_loop acc (pstate cur g))"
proof (induction "pending g" arbitrary: g acc cur rule: less_induct)
  case less
  let ?stuck = "\<lambda>pre k A. \<exists>ts ps c. pre = ts @ [c] \<and> more_params_rep ts ps \<and> tok_type c = '','' \<and>
        k = ''IDENTIFIER'' \<and> A = {''IDENTIFIER''}"
  let ?run = "\<lambda>acc. run (\<lambda>ts v. \<exists>ps. more_params_rep ts ps \<and> v = acc @ ps) ?stuck (\<lambda>ts. {'',''})"
  show ?case
  proof (subst params_loop.simps, rule run_start, rule accept_run[OF less.prems], goal_cases)
    case 1
    then show ?case
      using less.prems
      by (simp only: run_simps) (rule run.ok; auto simp: refused_iff intro: more_params_rep.none)
  next
    case (2 c g1)
    show ?case
    proof (simp only: run_simps, rule expect_run[OF 2(3)], goal_cases)
      case 1
      have "?stuck ([] @ [c]) ''IDENTIFIER'' {''IDENTIFIER''}"
        using 2(2) by (intro exI[of _ "[]"] exI[of _ "[]"] exI[of _ c]) (simp add: more_params_rep.none)
      moreover have "refused {''IDENTIFIER''} g1" using 1 2(3) by (simp add: refused_iff)
      moreover have "cur_after cur ([] @ [c]) = Some c" by simp
      ultimately show ?case by (intro run.stuck)
    next
      case (2 i g2)
      note i = this
      have lt: "pending g2 < pending g" by (simp add: \<open>g = Yield c g1\<close> i(1))
      from less.hyps[OF lt i(3), of "acc @ [tok_value i]" "Some i"]
      have "?run acc cur (feed (([] @ [c]) @ [i]) g2)
          (params_loop (acc @ [tok_value i]) (pstate (Some i) g2))"
      proof (rule run_prefix, goal_cases)
        case 1
        show ?case by simp
      next
        case (2 ts' v g')
        from 2(2) obtain ps where "more_params_rep ts' ps" "v = (acc @ [tok_value i]) @ ps" by blast
        with \<open>tok_type c = '',''\<close> i(2) have "more_params_rep (c # i # ts') (tok_value i # ps)"
          "v = acc @ tok_value i # ps"
          by (auto intro: more_params_rep.more)
        with 2(3) show ?case by auto
      next
        case (3 p k A)
        then obtain ts' ps c' where p: "p = ts' @ [c']" and m: "more_params_rep ts' ps"
          and c': "tok_type c' = '',''" and k: "k = ''IDENTIFIER''" "A = {''IDENTIFIER''}" by blast
        from \<open>tok_type c = '',''\<close> i(2) m have "more_params_rep (c # i # ts') (tok_value i # ps)"
          by (rule more_params_rep.more)
        with c' k show ?case
          by (intro exI[of _ "c # i # ts'"] exI[of _ "tok_value i # ps"] exI[of _ c']) (simp add: p)
      qed
      then show ?case by (simp only: run_simps)
    qed
  qed
qed

lemma parse_params_run:
  assumes "ready g"
  shows "run params_rep params_stuck (\<lambda>ts. {'',''}) (Some t0) g (parse_params (pstate (Some t0) g))"
  unfolding parse_params_def
proof (rule run_start, rule expect_run[OF assms], goal_cases)
  case 1
  then have r: "refused {''IDENTIFIER''} g" using assms by (simp add: refused_iff)
  show ?case
    by (rule run.stuck, simp, rule r, rule params_stuck.first)
next
  case (2 i g1)
  from params_loop_run[OF 2(3), of "[tok_value i]" "Some i"]
  have "run params_rep params_stuck (\<lambda>ts. {'',''}) (Some t0) (feed ([] @ [i]) g1)
      (params_loop [tok_value i] (pstate (Some i) g1))"
  proof (rule run_prefix, goal_cases)
    case 1
    show ?case by simp
  next
    case (2 ts' v g')
    from 2(2) obtain ps where "more_params_rep ts' ps" "v = [tok_value i] @ ps" by blast
    with \<open>tok_type i = ''IDENTIFIER''\<close> have "params_rep (i # ts') v"
      by (auto intro: params_rep.intros)
    with 2(3) show ?case by simp
  next
    case (3 p k A)
    then obtain ts' ps c' where p: "p = ts' @ [c']" and m: "more_params_rep ts' ps"
      and c': "tok_type c' = '',''" and k: "k = ''IDENTIFIER''" "A = {''IDENTIFIER''}" by blast
    from \<open>tok_type i = ''IDENTIFIER''\<close> m have "params_rep (i # ts') (tok_value i # ps)"
      by (rule params_rep.intros)
    from params_stuck.later[OF this c'] show ?case by (simp add: p k)
  qed
  then show ?case by (simp only: run_simps)
qed

lemma parse_dimensions_run:
  assumes "ready g"
  shows "run dims_rep dims_stuck (\<lambda>ts. if ts = [] then {''[''} else {}) cur g
    (bind (parse_dimensions (pstate cur g)) (\<lambda>(m, l, p). Inr ((m, l), p)))"
  using assms unfolding parse_dimensions_def
  apply -
  apply (rule run_start)
  apply (simp only: run_simps)
  apply ((rule expect_run accept_run | assumption | simp only: run_simps
      | (rule run.stuck; (simp only: append_Nil append_Cons)?; (rule dims_stuck.intros)?;
          simp add: refused_iff)
      | (rule run.ok; (simp only: append_Nil append_Cons)?; (rule dims_rep.intros)?;
          simp add: refused_iff))+)
  done

lemma dims_bind:
  "bind (parse_dimensions p) f =
   bind (bind (parse_dimensions p) (\<lambda>(m, l, p). Inr ((m, l), p))) (\<lambda>((m, l), p). f (m, l, p))"
  by (cases "parse_dimensions p") auto

lemma accept_net_run:
  assumes "ready g"
    and "next_type g \<notin> {Some ''input'', Some ''output'', Some ''wire''} \<Longrightarrow>
      run rep stuck X c0 (feed pre g) (f (False, pstate cur g))"
    and "\<And>t' g'. g = Yield t' g' \<Longrightarrow> tok_type t' \<in> {''input'', ''output'', ''wire''} \<Longrightarrow> ready g' \<Longrightarrow>
      run rep stuck X c0 (feed (pre @ [t']) g') (f (True, pstate (Some t') g'))"
  shows "run rep stuck X c0 (feed pre g) (bind (accept_net (pstate cur g)) f)"
proof (cases "next_type g \<in> {Some ''input'', Some ''output'', Some ''wire''}")
  case False
  with assms(1,2) show ?thesis by (simp add: accept_net_no)
next
  case True
  then obtain t' g' where g: "g = Yield t' g'" and t: "tok_type t' \<in> {''input'', ''output'', ''wire''}"
    by (cases g) (auto simp: next_type_def)
  show ?thesis
  proof (cases "ready g'")
    case True
    with assms(3)[OF g t True] t show ?thesis by (simp add: g accept_net_yes)
  next
    case False
    then obtain e where e: "g' = Raise e" by (cases g') simp_all
    have "accept_net (pstate cur g) = Inl e"
      using t by (auto simp: g e accept_net_def accept_def advance_def pstate_def)
    then show ?thesis by (simp add: g e run.lex)
  qed
qed


lemma cur_after_Some: "cur_after (Some t) ts = Some (last (t # ts))"
  by (simp add: cur_after_def)

lemma nets_stuck_more:
  assumes "net_rep ts n" "nets_stuck p k A"
  shows "nets_stuck (ts @ p) k A"
  using assms(2)
proof (cases rule: nets_stuck.cases)
  case (1 ts' ns pre')
  from nets_stuck.intros[OF nets_rep.more[OF assms(1) 1(2)] 1(3)] show ?thesis
    by (simp add: 1(1))
qed

lemma nets_stuck_first: "net_stuck p k A \<Longrightarrow> nets_stuck p k A"
  using nets_stuck.intros[OF nets_rep.none, of p k A] by simp

lemma nets_loop_run:
  "ready g \<Longrightarrow>
   run (\<lambda>ts v. \<exists>ns. nets_rep ts ns \<and> v = acc @ ns) nets_stuck
     (\<lambda>ts. {''input'', ''output'', ''wire''}) cur g (nets_loop acc (pstate cur g))"
proof (induction "pending g" arbitrary: g acc cur rule: less_induct)
  case less
  let ?run = "\<lambda>acc. run (\<lambda>ts v. \<exists>ns. nets_rep ts ns \<and> v = acc @ ns) nets_stuck
     (\<lambda>ts. {''input'', ''output'', ''wire''})"
  show ?case
  proof (subst nets_loop.simps, rule run_start, rule accept_net_run[OF less.prems], goal_cases)
    case 1
    then show ?case
      using less.prems
      by (simp only: run_simps) (rule run.ok; auto simp: refused_iff intro: nets_rep.none)
  next
    case (2 kw g1)
    note kw = this
    show ?case
    proof (simp only: run_simps, subst dims_bind,
        rule call_run[OF parse_dimensions_run[OF kw(3)]], goal_cases)
      case (1 ds v g2)
      note ds = this
      obtain m l where v: "v = (m, l)" by (cases v)
      have r2: "ready g2" using ds(3) by (simp add: refused_iff split: if_splits)
      show ?case
      proof (simp only: v run_simps cur_after_Some, rule expect_run[OF r2], goal_cases)
        case 1
        have "\<exists>A. net_stuck (([] @ [kw]) @ ds) ''IDENTIFIER'' A \<and> refused A g2"
        proof (cases "ds = []")
          case True
          with kw(2) ds(3) 1 r2 show ?thesis
            by (intro exI[of _ "{''['', ''IDENTIFIER''}"]) (simp add: net_stuck.name refused_iff)
        next
          case False
          with net_stuck.name_dims[OF kw(2) ds(2)[unfolded v] False] 1 r2 show ?thesis
            by (intro exI[of _ "{''IDENTIFIER''}"]) (simp add: refused_iff)
        qed
        then obtain A where "net_stuck (([] @ [kw]) @ ds) ''IDENTIFIER'' A" "refused A g2" by blast
        then have "nets_stuck (([] @ [kw]) @ ds) ''IDENTIFIER'' A" "refused A g2"
          by (simp_all add: nets_stuck_first)
        then show ?case
          by - (rule run.stuck, simp add: cur_after_def, assumption, simp)
      next
        case (2 i g3)
        note i = this
        show ?case
        proof (simp only: run_simps, rule expect_run[OF i(3)], goal_cases)
          case 1
          have "net_stuck (kw # ds @ [i]) '';'' {'';''}"
            using kw(2) ds(2)[unfolded v] i(2) by (rule net_stuck.semi)
          then have "nets_stuck (kw # ds @ [i]) '';'' {'';''}"
            by (rule nets_stuck_first)
          moreover have "refused {'';''} g3" using 1 i(3) by (simp add: refused_iff)
          ultimately show ?case
            by - (rule run.stuck, simp, assumption, simp)
        next
          case (2 s g4)
          note s = this
          let ?n = "\<lparr>net_type = tok_type kw, net_name = tok_value i, net_msb = m, net_lsb = l\<rparr>"
          have n: "net_rep (kw # ds @ [i, s]) ?n"
            using kw(2) ds(2)[unfolded v] i(2) s(2) by (rule net_rep.intros)
          have lt: "pending g4 < pending g"
            by (simp add: kw(1) ds(1) i(1) s(1) pending_feed)
          from less.hyps[OF lt s(3), of "acc @ [?n]" "Some s"]
          have "?run acc cur (feed (kw # ds @ [i, s]) g4) (nets_loop (acc @ [?n]) (pstate (Some s) g4))"
          proof (rule run_prefix, goal_cases)
            case 1
            show ?case by (simp add: cur_after_def)
          next
            case (2 ts' v g')
            from 2(2) obtain ns where ns: "nets_rep ts' ns" and v: "v = (acc @ [?n]) @ ns" by blast
            from nets_rep.more[OF n ns] v 2(3) show ?case
              by (intro conjI exI[of _ "?n # ns"]) simp_all
          next
            case (3 p k A)
            with n show ?case by (rule nets_stuck_more)
          qed
          then show ?case by simp
        qed
      qed
    next
      case (2 pre' k A g2 t)
      have "net_stuck (kw # pre') k A" using kw(2) 2(2) by (rule net_stuck.dims)
      then have "nets_stuck (kw # pre') k A" by (rule nets_stuck_first)
      moreover have "cur_after cur (kw # pre') = Some t"
        using 2(4) by (auto simp: cur_after_def split: if_splits)
      ultimately show ?case using 2(3)
        by - (rule run.stuck[where pre = "([] @ [kw]) @ pre'"], simp, assumption, simp)
    qed
  qed
qed


lemma instances_stuck_first: "instance_stuck p k A \<Longrightarrow> instances_stuck p k A"
  using instances_stuck.intros[OF instances_rep.none, of p k A] by simp

lemma instances_stuck_more:
  assumes "instance_rep ts i" "instances_stuck p k A"
  shows "instances_stuck (ts @ p) k A"
  using assms(2)
proof (cases rule: instances_stuck.cases)
  case (1 ts' "is" pre')
  from instances_stuck.intros[OF instances_rep.more[OF assms(1) 1(2)] 1(3)] show ?thesis
    by (simp add: 1(1))
qed

lemma instances_loop_run:
  "ready g \<Longrightarrow>
   run (\<lambda>ts v. \<exists>is. instances_rep ts is \<and> v = acc @ is) instances_stuck
     (\<lambda>ts. {''IDENTIFIER''}) cur g (instances_loop acc (pstate cur g))"
proof (induction "pending g" arbitrary: g acc cur rule: less_induct)
  case less
  let ?run = "\<lambda>acc. run (\<lambda>ts v. \<exists>is. instances_rep ts is \<and> v = acc @ is) instances_stuck
     (\<lambda>ts. {''IDENTIFIER''})"
  show ?case
  proof (subst instances_loop.simps, rule run_start, rule accept_run[OF less.prems], goal_cases)
    case 1
    then show ?case
      using less.prems
      by (simp only: run_simps) (rule run.ok; auto simp: refused_iff intro: instances_rep.none)
  next
    case (2 t g1)
    note t = this
    show ?case
    proof (simp only: run_simps, rule expect_run[OF t(3)], goal_cases)
      case 1
      have "instances_stuck [t] ''IDENTIFIER'' {''IDENTIFIER''}"
        using t(2) by (intro instances_stuck_first instance_stuck.name)
      moreover have "refused {''IDENTIFIER''} g1" using 1 t(3) by (simp add: refused_iff)
      ultimately show ?case
        by - (rule run.stuck, simp, assumption, simp)
    next
      case (2 n g2)
      note n = this
      show ?case
      proof (simp only: run_simps, rule expect_run[OF n(3)], goal_cases)
        case 1
        have "instances_stuck [t, n] ''('' {''(''}"
          using t(2) n(2) by (intro instances_stuck_first instance_stuck.lpar) simp
        moreover have "refused {''(''} g2" using 1 n(3) by (simp add: refused_iff)
        ultimately show ?case
          by - (rule run.stuck, simp, assumption, simp)
      next
        case (2 l g3)
        note l = this
        have ty: "map tok_type [t, n, l] = [''IDENTIFIER'', ''IDENTIFIER'', ''('']"
          using t(2) n(2) l(2) by simp
        show ?case
        proof (rule call_run[OF parse_args_run[OF l(3)]], goal_cases)
          case (1 tsa as g4)
          note a = this
          have r4: "ready g4" using a(3) by (simp add: refused_iff)
          show ?case
          proof (simp only: run_simps cur_after_Some, rule expect_run[OF r4], goal_cases)
            case 1
            have "instances_stuck ([t, n, l] @ tsa) '')'' {'','', '')''}"
              using ty a(2) by (intro instances_stuck_first instance_stuck.rpar)
            moreover have "refused {'','', '')''} g4" using 1 a(3) by (simp add: refused_iff)
            ultimately show ?case
              by - (rule run.stuck, simp add: cur_after_def, assumption, simp)
          next
            case (2 r g5)
            note r = this
            show ?case
            proof (rule expect_run[OF r(3)], goal_cases)
              case 1
              have "instances_stuck ([t, n, l] @ tsa @ [r]) '';'' {'';''}"
                using ty a(2) r(2) by (intro instances_stuck_first instance_stuck.semi)
              moreover have "refused {'';''} g5" using 1 r(3) by (simp add: refused_iff)
              ultimately show ?case
                by - (rule run.stuck, simp, assumption, simp)
            next
              case (2 s g6)
              note s = this
              let ?i = "\<lparr>inst_type = tok_value t, inst_name = tok_value n, args = as\<rparr>"
              have i: "instance_rep ([t, n, l] @ tsa @ [r, s]) ?i"
                using ty a(2) by (rule instance_rep.intros) (simp add: r(2) s(2))
              have lt: "pending g6 < pending g"
                by (simp add: t(1) n(1) l(1) a(1) r(1) s(1) pending_feed)
              from less.hyps[OF lt s(3), of "acc @ [?i]" "Some s"]
              have "?run acc cur (feed ([t, n, l] @ tsa @ [r, s]) g6)
                  (instances_loop (acc @ [?i]) (pstate (Some s) g6))"
              proof (rule run_prefix, goal_cases)
                case 1
                show ?case by (simp add: cur_after_def)
              next
                case (2 ts' v g')
                from 2(2) obtain xs where xs: "instances_rep ts' xs" and v: "v = (acc @ [?i]) @ xs"
                  by blast
                from instances_rep.more[OF i xs] v 2(3) show ?case
                  by (intro conjI exI[of _ "?i # xs"]) simp_all
              next
                case (3 p k A)
                with i show ?case by (rule instances_stuck_more)
              qed
              then show ?case by simp
            qed
          qed
        next
          case (2 pre' k A g4 t')
          have "instances_stuck ([t, n, l] @ pre') k A"
            using ty 2(2) by (intro instances_stuck_first instance_stuck.args)
          moreover have "cur_after cur ([t, n, l] @ pre') = Some t'"
            using 2(4) by (auto simp: cur_after_def split: if_splits)
          ultimately show ?case using 2(3)
            by - (rule run.stuck[where pre = "((([] @ [t]) @ [n]) @ [l]) @ pre'"], simp, assumption, simp)
        qed
      qed
    qed
  qed
qed


lemma file_stuck_first: "module_stuck p k A \<Longrightarrow> file_stuck p k A"
  using file_stuck.intros[OF file_rep.none, of p k A] by simp

lemma file_stuck_more:
  assumes "module_rep ts m" "file_stuck p k A"
  shows "file_stuck (ts @ p) k A"
  using assms(2)
proof (cases rule: file_stuck.cases)
  case (1 ts' ms pre')
  from file_stuck.intros[OF file_rep.more[OF assms(1) 1(2)] 1(3)] show ?thesis
    by (simp add: 1(1))
qed

lemma file_loop_run:
  "ready g \<Longrightarrow>
   run (\<lambda>ts v. \<exists>ms. file_rep ts ms \<and> v = acc @ ms) file_stuck
     (\<lambda>ts. {''module''}) cur g (file_loop acc (pstate cur g))"
proof (induction "pending g" arbitrary: g acc cur rule: less_induct)
  case less
  let ?run = "\<lambda>acc. run (\<lambda>ts v. \<exists>ms. file_rep ts ms \<and> v = acc @ ms) file_stuck
     (\<lambda>ts. {''module''})"
  show ?case
  proof (subst file_loop.simps, rule run_start, rule accept_run[OF less.prems], goal_cases)
    case 1
    then show ?case
      using less.prems
      by (simp only: run_simps) (rule run.ok; auto simp: refused_iff intro: file_rep.none)
  next
    case (2 m g1)
    note m = this
    show ?case
    proof (simp only: run_simps, rule expect_run[OF m(3)], goal_cases)
      case 1
      have "file_stuck [m] ''IDENTIFIER'' {''IDENTIFIER''}"
        using m(2) by (intro file_stuck_first module_stuck.name)
      moreover have "refused {''IDENTIFIER''} g1" using 1 m(3) by (simp add: refused_iff)
      ultimately show ?case
        by - (rule run.stuck, simp, assumption, simp)
    next
      case (2 i g2)
      note i = this
      show ?case
      proof (simp only: run_simps, rule expect_run[OF i(3)], goal_cases)
        case 1
        have "file_stuck [m, i] ''('' {''(''}"
          using m(2) i(2) by (intro file_stuck_first module_stuck.lpar) simp
        moreover have "refused {''(''} g2" using 1 i(3) by (simp add: refused_iff)
        ultimately show ?case
          by - (rule run.stuck, simp, assumption, simp)
      next
        case (2 l g3)
        note l = this
        have ty: "map tok_type [m, i, l] = [''module'', ''IDENTIFIER'', ''('']"
          using m(2) i(2) l(2) by simp
        show ?case
        proof (rule call_run[OF parse_params_run[OF l(3)]], goal_cases)
          case (1 pts ps g4)
          note p = this
          have r4: "ready g4" using p(3) by (simp add: refused_iff)
          show ?case
          proof (simp only: run_simps cur_after_Some, rule expect_run[OF r4], goal_cases)
            case 1
            have "file_stuck ([m, i, l] @ pts) '')'' {'','', '')''}"
              using ty p(2) by (intro file_stuck_first module_stuck.rpar)
            moreover have "refused {'','', '')''} g4" using 1 p(3) by (simp add: refused_iff)
            ultimately show ?case
              by - (rule run.stuck, simp add: cur_after_def, assumption, simp)
          next
            case (2 r g5)
            note r = this
            show ?case
            proof (rule expect_run[OF r(3)], goal_cases)
              case 1
              have "file_stuck ([m, i, l] @ pts @ [r]) '';'' {'';''}"
                using ty p(2) r(2) by (intro file_stuck_first module_stuck.semi)
              moreover have "refused {'';''} g5" using 1 r(3) by (simp add: refused_iff)
              ultimately show ?case
                by - (rule run.stuck, simp, assumption, simp)
            next
              case (2 s g6)
              note s = this
              have rs: "map tok_type [r, s] = ['')'', '';'']" using r(2) s(2) by simp
              show ?case
              proof (simp only: parse_nets_def, rule call_run[OF nets_loop_run[OF s(3)]], goal_cases)
                case (1 nts v g7)
                note n = this
                from n(2) obtain ns where ns: "nets_rep nts ns" and v: "v = ns" by auto
                have r7: "ready g7" using n(3) by (simp add: refused_iff)
                show ?case
                proof (simp only: run_simps parse_instances_def,
                    rule call_run[OF instances_loop_run[OF r7]], goal_cases)
                  case (1 its v' g8)
                  note it = this
                  from it(2) obtain xs where xs: "instances_rep its xs" and v': "v' = xs" by auto
                  have r8: "ready g8" using it(3) by (simp add: refused_iff)
                  let ?pre = "[m, i, l] @ pts @ [r, s] @ nts @ its"
                  show ?case
                  proof (simp only: run_simps cur_after_Some, rule expect_run[OF r8], goal_cases)
                    case 1
                    have "\<exists>A. module_stuck ?pre ''endmodule'' A \<and> refused A g8"
                    proof (cases "its = []")
                      case True
                      from module_stuck.end_nets[OF ty p(2) rs ns] True n(3) it(1,3) 1 show ?thesis
                        by (intro exI[of _ "{''input'', ''output'', ''wire'', ''IDENTIFIER'', ''endmodule''}"])
                          (simp add: refused_iff)
                    next
                      case False
                      from module_stuck.end_instances[OF ty p(2) rs ns xs False] it(3) 1 show ?thesis
                        by (intro exI[of _ "{''IDENTIFIER'', ''endmodule''}"]) (simp add: refused_iff)
                    qed
                    then obtain A where "file_stuck ?pre ''endmodule'' A" "refused A g8"
                      by (auto intro: file_stuck_first)
                    then show ?case
                      by - (rule run.stuck, simp add: cur_after_def, assumption, simp)
                  next
                    case (2 e g9)
                    note e = this
                    let ?m = "\<lparr>name = tok_value i, params = ps, nets = ns, instances = xs\<rparr>"
                    have md: "module_rep ([m, i, l] @ pts @ [r, s] @ nts @ its @ [e]) ?m"
                      using ty p(2) rs ns xs e(2) by (rule module_rep.intros)
                    have lt: "pending g9 < pending g"
                      by (simp add: m(1) i(1) l(1) p(1) r(1) s(1) n(1) it(1) e(1) pending_feed)
                    from less.hyps[OF lt e(3), of "acc @ [?m]" "Some e"]
                    have "?run acc cur (feed ([m, i, l] @ pts @ [r, s] @ nts @ its @ [e]) g9)
                        (file_loop (acc @ [?m]) (pstate (Some e) g9))"
                    proof (rule run_prefix, goal_cases)
                      case 1
                      show ?case by (simp add: cur_after_def)
                    next
                      case (2 ts' w g')
                      from 2(2) obtain ms where ms: "file_rep ts' ms" and w: "w = (acc @ [?m]) @ ms"
                        by blast
                      from file_rep.more[OF md ms] w 2(3) show ?case
                        by (intro conjI exI[of _ "?m # ms"]) simp_all
                    next
                      case (3 q k A)
                      with md show ?case by (rule file_stuck_more)
                    qed
                    then show ?case by (simp add: v v')
                  qed
                next
                  case (2 pre' k A g8 t')
                  have "file_stuck ([m, i, l] @ pts @ [r, s] @ nts @ pre') k A"
                    using ty p(2) rs ns 2(2) by (intro file_stuck_first module_stuck.instances)
                  moreover have "pre' \<noteq> []"
                    using 2(2) by (auto elim!: instances_stuck.cases instance_stuck.cases)
                  then have "cur_after cur ([m, i, l] @ pts @ [r, s] @ nts @ pre') = Some t'"
                    using 2(4) by (auto simp: cur_after_def split: if_splits)
                  ultimately show ?case using 2(3)
                    by - (rule run.stuck, simp, assumption, simp)
                qed
              next
                case (2 pre' k A g7 t')
                have "file_stuck ([m, i, l] @ pts @ [r, s] @ pre') k A"
                  using ty p(2) rs 2(2) by (intro file_stuck_first module_stuck.nets)
                moreover have "cur_after cur ([m, i, l] @ pts @ [r, s] @ pre') = Some t'"
                  using 2(4) by (auto simp: cur_after_def split: if_splits)
                ultimately show ?case using 2(3)
                  by - (rule run.stuck, simp, assumption, simp)
              qed
            qed
          qed
        next
          case (2 pre' k A g4 t')
          have "file_stuck ([m, i, l] @ pre') k A"
            using ty 2(2) by (intro file_stuck_first module_stuck.params)
          moreover have "cur_after cur ([m, i, l] @ pre') = Some t'"
            using 2(4) by (auto simp: cur_after_def split: if_splits)
          ultimately show ?case using 2(3)
            by - (rule run.stuck, simp, assumption, simp)
        qed
      qed
    qed
  qed
qed


lemma next_token_pstate [simp]:
  "next_token (pstate c Stop) = None" "next_token (pstate c (Yield t g)) = Some t"
  by (simp_all add: pstate_def)

lemma parse_cases:
  obtains (design) ts ms where "scan inp = feed ts Stop" "file_rep ts ms"
      "parse inp = Inr (Design ms)"
  | (trailing) ts ms t g where "scan inp = feed ts (Yield t g)" "file_rep ts ms"
      "parse inp = Inl SyntaxError_eof"
  | (expected) pre k A g where "scan inp = feed pre g" "file_stuck pre k A" "refused A g"
      "pre \<noteq> []"
      "parse inp = Inl (SyntaxError_expected k (tok_column (last pre)) (tok_line (last pre)))"
  | (lexical) e where "gen_end (scan inp) = Some e" "parse inp = Inl e"
proof (cases "ready (scan inp)")
  case False
  then obtain e where e: "scan inp = Raise e" by (cases "scan inp") simp_all
  then have "parse inp = Inl e" by (simp add: parse_def advance_def)
  with e show ?thesis by (intro lexical[of e]) simp_all
next
  case True
  then have a: "advance \<lparr>token_gen = scan inp, token = None, next_token = None\<rparr> =
      Inr (pstate None (scan inp))"
    by (rule advance_initial)
  from file_loop_run[OF True, of "[]" None] show ?thesis
  proof (cases rule: run.cases)
    case (ok p ts g v)
    from ok(5) obtain ms where ms: "file_rep ts ms" and v: "v = ms" by auto
    show ?thesis
    proof (cases g)
      case Stop
      have "parse inp = Inr (Design ms)"
        unfolding parse_def a using ok(2,3) by (simp add: parse_file_def v Stop)
      with ok(1) ms Stop show ?thesis by (intro design[of ts ms]) simp_all
    next
      case (Yield t g')
      have "parse inp = Inl SyntaxError_eof"
        unfolding parse_def a using ok(2,3) by (simp add: parse_file_def v Yield)
      with ok(1) ms Yield show ?thesis by (intro trailing[of ts t g' ms]) simp_all
    next
      case (Raise e)
      with ok(4) show ?thesis by (simp add: refused_def)
    qed
  next
    case (stuck pre t A g k)
    from stuck(3) have ne: "pre \<noteq> []" and t: "t = last pre"
      by (auto simp: cur_after_def split: if_splits)
    have "parse inp = Inl (SyntaxError_expected k (tok_column (last pre)) (tok_line (last pre)))"
      unfolding parse_def a by (simp add: parse_file_def stuck(2) t)
    with stuck(1,4,5) ne show ?thesis by (intro expected[of pre g k A])
  next
    case (lex e)
    have "parse inp = Inl e"
      unfolding parse_def a by (simp add: parse_file_def lex(1))
    with lex(2) show ?thesis by (intro lexical[of e])
  qed
qed

lemma scan_from_end:
  "gen_end (scan_from pos line start s) = Some e \<Longrightarrow> \<exists>v c l. e = RuntimeError_unexpected v c l"
proof (induction "length s" arbitrary: pos line start s rule: less_induct)
  case less
  show ?case
  proof (cases "regex_match s")
    case None
    with less.prems show ?thesis
      by (simp add: scan_from.simps[of pos line start s])
  next
    case (Some x)
    obtain k v rest where x: "x = (k, v, rest)" by (cases x)
    with Some have m: "regex_match s = Some (k, v, rest)" by simp
    show ?thesis
    proof (cases "k = ''MISMATCH''")
      case True
      with m less.prems show ?thesis by (auto simp: scan_step_mismatch)
    next
      case False
      from less.prems have "gen_end (scan_from (pos + int (length v))
          (if breaks_line k then line + 1 else line)
          (if breaks_line k then pos + int (length v) else start) rest) = Some e"
        by (simp add: scan_step_ok[OF m False])
      with less.hyps[OF regex_match_shorter[OF m]] show ?thesis by blast
    qed
  qed
qed

lemma scan_end_runtime:
  "gen_end (scan inp) = Some e \<Longrightarrow> \<exists>v c l. e = RuntimeError_unexpected v c l"
  unfolding scan_def by (rule scan_from_end)

lemma parse_expected_stuck:
  assumes "parse inp = Inl (SyntaxError_expected k c l)"
  shows "\<exists>pre g A. scan inp = feed pre g \<and> file_stuck pre k A \<and> refused A g \<and>
    c = tok_column (last pre) \<and> l = tok_line (last pre)"
proof (cases inp rule: parse_cases)
  case (design ts ms)
  with assms show ?thesis by simp
next
  case (trailing ts ms t g)
  with assms show ?thesis by simp
next
  case (expected pre k' A g)
  with assms show ?thesis by auto
next
  case (lexical e)
  with assms scan_end_runtime[OF lexical(1)] show ?thesis by auto
qed

lemma parse_design_whole:
  assumes "parse inp = Inr d"
  shows "gen_end (scan inp) = None \<and> (\<exists>ms. file_rep (gen_tokens (scan inp)) ms \<and> d = Design ms)"
proof (cases inp rule: parse_cases)
  case (design ts ms)
  with assms show ?thesis by (auto simp: gen_tokens_feed)
next
  case (trailing ts ms t g)
  with assms show ?thesis by simp
next
  case (expected pre k' A g)
  with assms show ?thesis by simp
next
  case (lexical e)
  with assms show ?thesis by simp
qed

lemma parse_not_attribute: "parse inp \<noteq> Inl AttributeError"
proof (cases inp rule: parse_cases)
  case (design ts ms)
  then show ?thesis by simp
next
  case (trailing ts ms t g)
  then show ?thesis by simp
next
  case (expected pre k' A g)
  then show ?thesis by simp
next
  case (lexical e)
  with scan_end_runtime[OF lexical(1)] show ?thesis by auto
qed

lemma arg_stuck_kind: "arg_stuck pre k A \<Longrightarrow> k \<in> A"
  by (auto elim: arg_stuck.cases)

lemma file_stuck_kind: "file_stuck pre k A \<Longrightarrow> pre \<noteq> [] \<and> k \<in> A"
  by (auto elim!: file_stuck.cases module_stuck.cases params_stuck.cases nets_stuck.cases
      net_stuck.cases dims_stuck.cases instances_stuck.cases instance_stuck.cases
      args_stuck.cases dest: arg_stuck_kind)

lemma parse_error_position:
  assumes "parse inp = Inl (SyntaxError_expected k c l)"
  shows "\<exists>pre g. pre \<noteq> [] \<and> scan inp = feed pre g \<and> ready g \<and> next_type g \<noteq> Some k \<and>
     c = tok_column (last pre) \<and> l = tok_line (last pre)"
proof -
  from parse_expected_stuck[OF assms] obtain pre g A where
    s: "scan inp = feed pre g" "file_stuck pre k A" "refused A g"
       "c = tok_column (last pre)" "l = tok_line (last pre)" by blast
  from file_stuck_kind[OF s(2)] s(3) have "pre \<noteq> []" "ready g" "next_type g \<noteq> Some k"
    by (auto simp: refused_iff)
  with s show ?thesis by blast
qed

subsection \<open>The claims about parsing\<close>

text \<open>
  C4. Let the parser stand before the tokens \<open>.\<close>, identifier, \<open>(\<close>, identifier of a
  port connection. If \<open>[\<close>, a number, \<open>]\<close> and \<open>)\<close> follow, the Argument has that
  number as msb and as lsb; if \<open>[\<close>, a number, \<open>:\<close>, a second number, \<open>]\<close> and \<open>)\<close>
  follow, msb is the first number and lsb the second; if \<open>)\<close> follows at once, msb and
  lsb are 0. (\<open>ready g\<close>: pulling the lookahead after the closing parenthesis does not
  raise a lexical error.)
\<close>

theorem parse_arg_bit_select:
  assumes "map tok_type [d, i1, l, i2] = [''.'', ''IDENTIFIER'', ''('', ''IDENTIFIER'']"
    and "ready g"
  shows "(map tok_type [lb, n, rb, r] = [''['', ''NUMBER'', '']'', '')''] \<longrightarrow>
            parse_arg (pstate cur (feed [d, i1, l, i2, lb, n, rb, r] g)) =
              Inr (\<lparr>param = tok_value i1, arg = tok_value i2, msb = tok_value n, lsb = tok_value n\<rparr>,
                   pstate (Some r) g)) \<and>
         (map tok_type [lb, n, c, n', rb, r] = [''['', ''NUMBER'', '':'', ''NUMBER'', '']'', '')''] \<longrightarrow>
            parse_arg (pstate cur (feed [d, i1, l, i2, lb, n, c, n', rb, r] g)) =
              Inr (\<lparr>param = tok_value i1, arg = tok_value i2, msb = tok_value n, lsb = tok_value n'\<rparr>,
                   pstate (Some r) g)) \<and>
         (tok_type r = '')'' \<longrightarrow>
            parse_arg (pstate cur (feed [d, i1, l, i2, r] g)) =
              Inr (\<lparr>param = tok_value i1, arg = tok_value i2, msb = Num 0, lsb = Num 0\<rparr>,
                   pstate (Some r) g))"
proof (intro conjI impI)
  assume "map tok_type [lb, n, rb, r] = [''['', ''NUMBER'', '']'', '')'']"
  with assms(1) have "arg_rep [d, i1, l, i2, lb, n, rb, r]
      \<lparr>param = tok_value i1, arg = tok_value i2, msb = tok_value n, lsb = tok_value n\<rparr>"
    by (intro arg_rep.bit) simp
  from parse_arg_rep[OF this assms(2), of cur]
  show "parse_arg (pstate cur (feed [d, i1, l, i2, lb, n, rb, r] g)) =
      Inr (\<lparr>param = tok_value i1, arg = tok_value i2, msb = tok_value n, lsb = tok_value n\<rparr>,
           pstate (Some r) g)" by simp
next
  assume "map tok_type [lb, n, c, n', rb, r] = [''['', ''NUMBER'', '':'', ''NUMBER'', '']'', '')'']"
  with assms(1) have "arg_rep [d, i1, l, i2, lb, n, c, n', rb, r]
      \<lparr>param = tok_value i1, arg = tok_value i2, msb = tok_value n, lsb = tok_value n'\<rparr>"
    by (intro arg_rep.range) simp
  from parse_arg_rep[OF this assms(2), of cur]
  show "parse_arg (pstate cur (feed [d, i1, l, i2, lb, n, c, n', rb, r] g)) =
      Inr (\<lparr>param = tok_value i1, arg = tok_value i2, msb = tok_value n, lsb = tok_value n'\<rparr>,
           pstate (Some r) g)" by simp
next
  assume "tok_type r = '')''"
  with assms(1) have "arg_rep [d, i1, l, i2, r]
      \<lparr>param = tok_value i1, arg = tok_value i2, msb = Num 0, lsb = Num 0\<rparr>"
    by (intro arg_rep.plain) simp
  from parse_arg_rep[OF this assms(2), of cur]
  show "parse_arg (pstate cur (feed [d, i1, l, i2, r] g)) =
      Inr (\<lparr>param = tok_value i1, arg = tok_value i2, msb = Num 0, lsb = Num 0\<rparr>,
           pstate (Some r) g)" by simp
qed

text \<open>The three connections of the specification, scanned from text.\<close>

theorem parse_arg_bit_select_witness:
  "parse_arg (pstate None (scan ''.A(x[3])'')) =
     Inr (\<lparr>param = Str ''A'', arg = Str ''x'', msb = Num 3, lsb = Num 3\<rparr>,
          pstate (Some (Token '')'' (Str '')'') 1 8)) Stop) \<and>
   parse_arg (pstate None (scan ''.A(x[3:1])'')) =
     Inr (\<lparr>param = Str ''A'', arg = Str ''x'', msb = Num 3, lsb = Num 1\<rparr>,
          pstate (Some (Token '')'' (Str '')'') 1 10)) Stop) \<and>
   parse_arg (pstate None (scan ''.A(x)'')) =
     Inr (\<lparr>param = Str ''A'', arg = Str ''x'', msb = Num 0, lsb = Num 0\<rparr>,
          pstate (Some (Token '')'' (Str '')'') 1 5)) Stop)"
proof -
  let ?d = "Token ''.'' (Str ''.'') 1 1" and ?i1 = "Token ''IDENTIFIER'' (Str ''A'') 1 2"
  let ?l = "Token ''('' (Str ''('') 1 3" and ?i2 = "Token ''IDENTIFIER'' (Str ''x'') 1 4"
  let ?lb = "Token ''['' (Str ''['') 1 5" and ?n = "Token ''NUMBER'' (Num 3) 1 6"
  have h1: "map tok_type [?d, ?i1, ?l, ?i2] = [''.'', ''IDENTIFIER'', ''('', ''IDENTIFIER'']"
    by (simp add: Token_def)
  have h2: "ready Stop" by simp
  have s1: "scan ''.A(x[3])'' =
      feed [?d, ?i1, ?l, ?i2, ?lb, ?n, Token '']'' (Str '']'') 1 7, Token '')'' (Str '')'') 1 8] Stop"
    by (simp add: scan_eval Token_def)
  have s2: "scan ''.A(x[3:1])'' =
      feed [?d, ?i1, ?l, ?i2, ?lb, ?n, Token '':'' (Str '':'') 1 7, Token ''NUMBER'' (Num 1) 1 8,
            Token '']'' (Str '']'') 1 9, Token '')'' (Str '')'') 1 10] Stop"
    by (simp add: scan_eval Token_def)
  have s3: "scan ''.A(x)'' = feed [?d, ?i1, ?l, ?i2, Token '')'' (Str '')'') 1 5] Stop"
    by (simp add: scan_eval Token_def)
  have a: "parse_arg (pstate None (scan ''.A(x[3])'')) =
     Inr (\<lparr>param = Str ''A'', arg = Str ''x'', msb = Num 3, lsb = Num 3\<rparr>,
          pstate (Some (Token '')'' (Str '')'') 1 8)) Stop)"
    using parse_arg_bit_select[OF h1 h2, where lb = ?lb and n = ?n
        and rb = "Token '']'' (Str '']'') 1 7" and r = "Token '')'' (Str '')'') 1 8" and cur = None]
    unfolding s1 by (simp add: Token_def)
  have b: "parse_arg (pstate None (scan ''.A(x[3:1])'')) =
     Inr (\<lparr>param = Str ''A'', arg = Str ''x'', msb = Num 3, lsb = Num 1\<rparr>,
          pstate (Some (Token '')'' (Str '')'') 1 10)) Stop)"
    using parse_arg_bit_select[OF h1 h2, where lb = ?lb and n = ?n
        and c = "Token '':'' (Str '':'') 1 7" and n' = "Token ''NUMBER'' (Num 1) 1 8"
        and rb = "Token '']'' (Str '']'') 1 9" and r = "Token '')'' (Str '')'') 1 10" and cur = None]
    unfolding s2 by (simp add: Token_def)
  have c: "parse_arg (pstate None (scan ''.A(x)'')) =
     Inr (\<lparr>param = Str ''A'', arg = Str ''x'', msb = Num 0, lsb = Num 0\<rparr>,
          pstate (Some (Token '')'' (Str '')'') 1 5)) Stop)"
    using parse_arg_bit_select[OF h1 h2, where r = "Token '')'' (Str '')'') 1 5" and cur = None]
    unfolding s3 by (simp add: Token_def)
  from a b c show ?thesis by blast
qed

text \<open>
  C5. A call of \<open>expect\<close> for a kind that the lookahead does not have, after a token
  \<open>t\<close> has been consumed, raises the syntax error that names this kind and the column
  and line of \<open>t\<close>. In a parse this error is the whole result, and only a failing call
  of \<open>expect\<close> gives it: \<open>parse\<close> ends with the syntax error for the kind \<open>k\<close>, the
  column \<open>c\<close> and the line \<open>l\<close> exactly when first tokens \<open>pre\<close> of the input lead
  to a call of \<open>expect\<close> for \<open>k\<close> (\<open>file_stuck\<close> lists the calls of the parser), the
  lookahead after \<open>pre\<close> is refused there, and \<open>c\<close> and \<open>l\<close> are the column and line
  of the last token of \<open>pre\<close>, the last token consumed. In particular the token after
  the reported one, the lookahead, is not of the kind \<open>k\<close>. No parse ends with the
  \<open>AttributeError\<close> that reading the position of a missing current token would raise.
  No partial result is produced: when \<open>parse\<close> returns a Design, the input has been
  scanned to its end without error and the Design is that of all its tokens.
\<close>

theorem expect_failure:
  "(\<not> (case next_token p of None \<Rightarrow> False | Some t' \<Rightarrow> tok_type t' = kind) \<longrightarrow>
      token p = Some t \<longrightarrow>
      expect kind p = Inl (SyntaxError_expected kind (tok_column t) (tok_line t))) \<and>
   (parse inp = Inl (SyntaxError_expected k c l) \<longleftrightarrow>
      (\<exists>pre g A. scan inp = feed pre g \<and> file_stuck pre k A \<and> refused A g \<and>
         c = tok_column (last pre) \<and> l = tok_line (last pre))) \<and>
   (parse inp = Inl (SyntaxError_expected k c l) \<longrightarrow>
      (\<exists>pre g. pre \<noteq> [] \<and> scan inp = feed pre g \<and> ready g \<and> next_type g \<noteq> Some k \<and>
         c = tok_column (last pre) \<and> l = tok_line (last pre))) \<and>
   parse inp \<noteq> Inl AttributeError \<and>
   (parse inp = Inr d \<longrightarrow>
      gen_end (scan inp) = None \<and> (\<exists>ms. file_rep (gen_tokens (scan inp)) ms \<and> d = Design ms))"
proof (intro conjI impI iffI)
  show "expect kind p = Inl (SyntaxError_expected kind (tok_column t) (tok_line t))"
    if "\<not> (case next_token p of None \<Rightarrow> False | Some t' \<Rightarrow> tok_type t' = kind)"
      and "token p = Some t"
    using that by (simp add: expect_def accept_def)
  show "\<exists>pre g A. scan inp = feed pre g \<and> file_stuck pre k A \<and> refused A g \<and>
      c = tok_column (last pre) \<and> l = tok_line (last pre)"
    if "parse inp = Inl (SyntaxError_expected k c l)"
    using that by (rule parse_expected_stuck)
  show "parse inp = Inl (SyntaxError_expected k c l)"
    if "\<exists>pre g A. scan inp = feed pre g \<and> file_stuck pre k A \<and> refused A g \<and>
      c = tok_column (last pre) \<and> l = tok_line (last pre)"
    using that parse_stuck[of inp _ _ k] by auto
  show "\<exists>pre g. pre \<noteq> [] \<and> scan inp = feed pre g \<and> ready g \<and> next_type g \<noteq> Some k \<and>
      c = tok_column (last pre) \<and> l = tok_line (last pre)"
    if "parse inp = Inl (SyntaxError_expected k c l)"
    using that by (rule parse_error_position)
  show "parse inp \<noteq> Inl AttributeError"
    by (rule parse_not_attribute)
  show "gen_end (scan inp) = None" "\<exists>ms. file_rep (gen_tokens (scan inp)) ms \<and> d = Design ms"
    if "parse inp = Inr d"
    using parse_design_whole[OF that] by simp_all
qed

text \<open>A net declaration without its semicolon: the error names \<open>;\<close> and the place of
  the name of the net, the last token before \<open>endmodule\<close>. With the semicolon, the
  Design is returned.\<close>

theorem expect_failure_witness:
  "expect '';'' (pstate (Some (Token ''IDENTIFIER'' (Str ''x'') 1 19))
      (Yield (Token ''endmodule'' (Str ''endmodule'') 1 21) Stop)) =
     Inl (SyntaxError_expected '';'' 19 1) \<and>
   parse ''module a(x); wire x endmodule'' = Inl (SyntaxError_expected '';'' 19 1) \<and>
   (\<exists>pre g. pre \<noteq> [] \<and> scan ''module a(x); wire x endmodule'' = feed pre g \<and> ready g \<and>
      next_type g \<noteq> Some '';'' \<and> 19 = tok_column (last pre) \<and> 1 = tok_line (last pre)) \<and>
   parse ''module a(x); endmodule'' =
     Inr (Design [\<lparr>name = Str ''a'', params = [Str ''x''], nets = [], instances = []\<rparr>]) \<and>
   gen_end (scan ''module a(x); endmodule'') = None \<and>
   (\<exists>ms. file_rep (gen_tokens (scan ''module a(x); endmodule'')) ms \<and>
      Design [\<lparr>name = Str ''a'', params = [Str ''x''], nets = [], instances = []\<rparr>] = Design ms)"
proof -
  let ?inp = "''module a(x); wire x endmodule''"
  let ?m = "Token ''module'' (Str ''module'') 1 1" and ?a = "Token ''IDENTIFIER'' (Str ''a'') 1 8"
  let ?l = "Token ''('' (Str ''('') 1 9" and ?x = "Token ''IDENTIFIER'' (Str ''x'') 1 10"
  let ?r = "Token '')'' (Str '')'') 1 11" and ?s = "Token '';'' (Str '';'') 1 12"
  let ?w = "Token ''wire'' (Str ''wire'') 1 14" and ?n = "Token ''IDENTIFIER'' (Str ''x'') 1 19"
  let ?e = "Token ''endmodule'' (Str ''endmodule'') 1 21"
  let ?pre = "[] @ [?m, ?a, ?l] @ [?x] @ [?r, ?s] @ [] @ ?w # [] @ [?n]"
  let ?p = "pstate (Some ?n) (Yield ?e Stop)"
  have s: "scan ?inp = feed ?pre (Yield ?e Stop)"
    by (simp add: scan_eval Token_def)
  have "net_stuck (?w # [] @ [?n]) '';'' {'';''}"
    by (rule net_stuck.semi[OF _ dims_rep.absent]) (simp_all add: Token_def)
  then have "nets_stuck ([] @ ?w # [] @ [?n]) '';'' {'';''}"
    by (rule nets_stuck.intros[OF nets_rep.none])
  then have "module_stuck ([?m, ?a, ?l] @ [?x] @ [?r, ?s] @ [] @ ?w # [] @ [?n]) '';'' {'';''}"
    by (rule module_stuck.nets[OF _ params_rep.intros[OF _ more_params_rep.none], rotated -1])
      (simp_all add: Token_def)
  then have f: "file_stuck ?pre '';'' {'';''}"
    by (rule file_stuck.intros[OF file_rep.none])
  have r: "refused {'';''} (Yield ?e Stop)"
    by (simp add: refused_def Token_def)
  have h: "\<not> (case next_token ?p of None \<Rightarrow> False | Some t' \<Rightarrow> tok_type t' = '';'')"
    "token ?p = Some ?n"
    by (simp_all add: pstate_def Token_def)
  have q: "\<exists>pre g A. scan ?inp = feed pre g \<and> file_stuck pre '';'' A \<and> refused A g \<and>
      19 = tok_column (last pre) \<and> 1 = tok_line (last pre)"
    using s f r by (intro exI[of _ ?pre] exI[of _ "Yield ?e Stop"] exI[of _ "{'';''}"])
      (simp add: Token_def)
  note c = expect_failure[where p = ?p and kind = "'';''" and t = ?n and inp = ?inp
      and k = "'';''" and c = 19 and l = 1]
  from c h have 1: "expect '';'' ?p = Inl (SyntaxError_expected '';'' 19 1)"
    by (simp add: Token_def)
  from c q have 2: "parse ?inp = Inl (SyntaxError_expected '';'' 19 1)"
    by blast
  from c 2 have 3: "\<exists>pre g. pre \<noteq> [] \<and> scan ?inp = feed pre g \<and> ready g \<and>
      next_type g \<noteq> Some '';'' \<and> 19 = tok_column (last pre) \<and> 1 = tok_line (last pre)"
    by blast
  let ?inp2 = "''module a(x); endmodule''"
  let ?d = "Design [\<lparr>name = Str ''a'', params = [Str ''x''], nets = [], instances = []\<rparr>]"
  have e2: "gen_end (scan ?inp2) = None"
    by (simp add: scan_eval)
  have t2: "gen_tokens (scan ?inp2) =
     [?m, ?a, ?l, ?x, ?r, ?s, Token ''endmodule'' (Str ''endmodule'') 1 14]"
    by (simp add: scan_eval Token_def)
  have "file_rep (gen_tokens (scan ?inp2))
      [\<lparr>name = Str ''a'', params = [Str ''x''], nets = [], instances = []\<rparr>]"
    unfolding t2
    using file_rep.more[OF simple_module_rep file_rep.none,
      of ?m ?a ?l ?x ?r ?s "Token ''endmodule'' (Str ''endmodule'') 1 14"]
    by (simp add: Token_def)
  with e2 have 4: "parse ?inp2 = Inr ?d" by (rule parse_rep)
  from expect_failure[where inp = ?inp2 and d = ?d] 4
  have 5: "gen_end (scan ?inp2) = None \<and> (\<exists>ms. file_rep (gen_tokens (scan ?inp2)) ms \<and> ?d = Design ms)"
    by blast
  from 1 2 3 4 5 show ?thesis by blast
qed



text \<open>
  C9. Let the input scan without error and let its tokens be the text of the modules
  \<open>ms\<close>, in this order, whatever their names. Then parsing succeeds with the Design
  built from \<open>ms\<close>, and the Design maps each name to the last module of \<open>ms\<close> with that
  name; the earlier ones are not in the mapping.
\<close>

theorem duplicate_modules_last_wins:
  assumes "gen_end (scan inp) = None" and "file_rep (gen_tokens (scan inp)) ms"
  shows "parse inp = Inr (Design ms) \<and>
         (\<forall>n. modules (Design ms) n =
            (case filter (\<lambda>m. name m = n) ms of [] \<Rightarrow> None | x # xs \<Rightarrow> Some (last (x # xs))))"
  using parse_rep[OF assms] Design_last by blast

theorem duplicate_modules_last_wins_witness:
  "parse ''module a(x); endmodule module a(y); endmodule'' =
     Inr (Design [\<lparr>name = Str ''a'', params = [Str ''x''], nets = [], instances = []\<rparr>,
                  \<lparr>name = Str ''a'', params = [Str ''y''], nets = [], instances = []\<rparr>]) \<and>
   modules (Design [\<lparr>name = Str ''a'', params = [Str ''x''], nets = [], instances = []\<rparr>,
                    \<lparr>name = Str ''a'', params = [Str ''y''], nets = [], instances = []\<rparr>])
     (Str ''a'') = Some \<lparr>name = Str ''a'', params = [Str ''y''], nets = [], instances = []\<rparr>"
proof -
  let ?inp = "''module a(x); endmodule module a(y); endmodule''"
  have e: "gen_end (scan ?inp) = None"
    by (simp add: scan_eval)
  have t: "gen_tokens (scan ?inp) =
     [Token ''module'' (Str ''module'') 1 1, Token ''IDENTIFIER'' (Str ''a'') 1 8,
      Token ''('' (Str ''('') 1 9, Token ''IDENTIFIER'' (Str ''x'') 1 10,
      Token '')'' (Str '')'') 1 11, Token '';'' (Str '';'') 1 12,
      Token ''endmodule'' (Str ''endmodule'') 1 14] @
     [Token ''module'' (Str ''module'') 1 24, Token ''IDENTIFIER'' (Str ''a'') 1 31,
      Token ''('' (Str ''('') 1 32, Token ''IDENTIFIER'' (Str ''y'') 1 33,
      Token '')'' (Str '')'') 1 34, Token '';'' (Str '';'') 1 35,
      Token ''endmodule'' (Str ''endmodule'') 1 37] @ []"
    by (simp add: scan_eval Token_def)
  have f: "file_rep (gen_tokens (scan ?inp))
      [\<lparr>name = Str ''a'', params = [Str ''x''], nets = [], instances = []\<rparr>,
       \<lparr>name = Str ''a'', params = [Str ''y''], nets = [], instances = []\<rparr>]"
    unfolding t
    using file_rep.more[OF simple_module_rep file_rep.more[OF simple_module_rep file_rep.none],
      of "Token ''module'' (Str ''module'') 1 1" "Token ''IDENTIFIER'' (Str ''a'') 1 8"
         "Token ''('' (Str ''('') 1 9" "Token ''IDENTIFIER'' (Str ''x'') 1 10"
         "Token '')'' (Str '')'') 1 11" "Token '';'' (Str '';'') 1 12"
         "Token ''endmodule'' (Str ''endmodule'') 1 14"
         "Token ''module'' (Str ''module'') 1 24" "Token ''IDENTIFIER'' (Str ''a'') 1 31"
         "Token ''('' (Str ''('') 1 32" "Token ''IDENTIFIER'' (Str ''y'') 1 33"
         "Token '')'' (Str '')'') 1 34" "Token '';'' (Str '';'') 1 35"
         "Token ''endmodule'' (Str ''endmodule'') 1 37"]
    by (simp add: Token_def)
  from duplicate_modules_last_wins[OF e f] show ?thesis by simp
qed

end
